theory Spec2Isabelle
  imports
    Main
    "HOL-Library.Word"
    "HOL-Library.AList"
    "HOL-Library.List_Lexorder"
    "HOL-Library.Multiset"
begin

section \<open>JavaScript strings and Maps\<close>

text \<open>
  A JavaScript string is a sequence of UTF-16 code units; \<open>s.length\<close> is the number of
  code units. Strings are compared with \<open>\<le>\<close> lexicographically by code unit, which is
  the order of HOL-Library.List_Lexorder on lists of words.
\<close>

type_synonym jsstring = "16 word list"

text \<open>A string literal of the source: each character of the ASCII literal is one code unit.\<close>

definition js :: "string \<Rightarrow> jsstring" where
  "js s = map of_char s"

definition isLead :: "16 word \<Rightarrow> bool" where
  "isLead u = (0xD800 \<le> u \<and> u \<le> 0xDBFF)"

definition isTrail :: "16 word \<Rightarrow> bool" where
  "isTrail u = (0xDC00 \<le> u \<and> u \<le> 0xDFFF)"

text \<open>
  The string iterator (\<open>for (const ch of s)\<close>, \<open>[...s]\<close>) yields one string per code
  point: a lead surrogate directly followed by a trail surrogate is one element of two
  code units, every other code unit (a lone surrogate too) is an element of its own.
\<close>

fun codePoints :: "jsstring \<Rightarrow> jsstring list" where
  "codePoints (u # v # rest) =
     (if isLead u \<and> isTrail v then [u, v] # codePoints rest
      else [u] # codePoints (v # rest))"
| "codePoints [u] = [[u]]"
| "codePoints [] = []"

fun startsWith :: "'a list \<Rightarrow> 'a list \<Rightarrow> bool" where
  "startsWith s [] = True"
| "startsWith [] (y # ys) = False"
| "startsWith (x # xs) (y # ys) = (x = y \<and> startsWith xs ys)"

text \<open>\<open>s.includes(t)\<close>: \<open>t\<close> occurs in \<open>s\<close> as a substring.\<close>

fun str_includes :: "'a list \<Rightarrow> 'a list \<Rightarrow> bool" where
  "str_includes [] t = (t = [])"
| "str_includes (x # xs) t = (startsWith (x # xs) t \<or> str_includes xs t)"

text \<open>
  A \<open>Map\<close> from characters to numbers is an association list in insertion order:
  \<open>m.get(k)\<close> is \<^term>\<open>map_of m k\<close> and \<open>m.set(k, v)\<close> is \<^term>\<open>AList.update k v m\<close>,
  which overwrites the value of a key in place and appends a new key at the end.
  A key is a JavaScript value: \<open>Some s\<close> for the string \<open>s\<close>, \<open>None\<close> for \<open>undefined\<close>.
\<close>

type_synonym counts = "(jsstring option \<times> nat) list"

text \<open>\<open>m.get(k) || d\<close>: the value of \<open>k\<close>, or \<open>d\<close> when it is missing or 0.\<close>

definition getOr :: "nat \<Rightarrow> counts \<Rightarrow> jsstring option \<Rightarrow> nat" where
  "getOr d m k = (case map_of m k of None \<Rightarrow> d | Some n \<Rightarrow> if n = 0 then d else n)"

text \<open>The statement \<open>counts.set(ch, (counts.get(ch) || 0) + 1)\<close>.\<close>

definition incCount :: "jsstring \<Rightarrow> counts \<Rightarrow> counts" where
  "incCount ch counts = AList.update (Some ch) (getOr 0 counts (Some ch) + 1) counts"

section \<open>Validator (src/lib/validator.js)\<close>

definition SPECIAL_CHARS :: jsstring where
  "SPECIAL_CHARS = js ''#?!@$%^&*-''"

datatype charClass = Uppercase | Lowercase | Digit | Special | Unknown

text \<open>The object \<open>CHAR_CLASSES\<close>: it has no property \<open>unknown\<close>.\<close>

fun CHAR_CLASSES :: "charClass \<Rightarrow> jsstring option" where
  "CHAR_CLASSES Uppercase = Some (js ''ABCDEFGHIJKLMNOPQRSTUVWXYZ'')"
| "CHAR_CLASSES Lowercase = Some (js ''abcdefghijklmnopqrstuvwxyz'')"
| "CHAR_CLASSES Digit = Some (js ''0123456789'')"
| "CHAR_CLASSES Special = Some SPECIAL_CHARS"
| "CHAR_CLASSES Unknown = None"

definition classifyChar :: "jsstring \<Rightarrow> charClass" where
  "classifyChar ch =
     (if js ''A'' \<le> ch \<and> ch \<le> js ''Z'' then Uppercase
      else if js ''a'' \<le> ch \<and> ch \<le> js ''z'' then Lowercase
      else if js ''0'' \<le> ch \<and> ch \<le> js ''9'' then Digit
      else if str_includes SPECIAL_CHARS ch then Special
      else Unknown)"

definition countChars :: "jsstring \<Rightarrow> counts" where
  "countChars password =
     fold incCount (codePoints password) []"

text \<open>
  A rule of the result carries its id, its name and whether it passed; the description and
  the detail of rule 6 are display texts built from the same data and are left out.
\<close>

record rule =
  rule_id :: nat
  name :: string
  pass :: bool

record validation =
  overall :: bool
  rules :: "rule list"

text \<open>\<open>/[lo-hi]/.test(s)\<close> and \<open>/[...]/.test(s)\<close>: the regular expressions have no \<open>u\<close> flag and match one code unit.\<close>

definition test_range :: "16 word \<Rightarrow> 16 word \<Rightarrow> jsstring \<Rightarrow> bool" where
  "test_range lo hi s = list_ex (\<lambda>u. lo \<le> u \<and> u \<le> hi) s"

definition test_set :: "jsstring \<Rightarrow> jsstring \<Rightarrow> bool" where
  "test_set cs s = list_ex (\<lambda>u. u \<in> set cs) s"

definition validate :: "jsstring \<Rightarrow> validation" where
  "validate password =
     (let counts = countChars password;
          violators = filter (\<lambda>(ch, n). n > 2) counts;
          rules =
            [\<lparr>rule_id = 1, name = ''minLength'', pass = (length password \<ge> 8)\<rparr>,
             \<lparr>rule_id = 2, name = ''uppercase'', pass = test_range 0x41 0x5A password\<rparr>,
             \<lparr>rule_id = 3, name = ''lowercase'', pass = test_range 0x61 0x7A password\<rparr>,
             \<lparr>rule_id = 4, name = ''special'', pass = test_set (js ''#?!@$%^&*-'') password\<rparr>,
             \<lparr>rule_id = 5, name = ''digit'', pass = test_range 0x30 0x39 password\<rparr>,
             \<lparr>rule_id = 6, name = ''maxRepeat'', pass = (length violators = 0)\<rparr>]
      in \<lparr>overall = list_all pass rules, rules = rules\<rparr>)"

section \<open>The environment: secure randomness and the engine's sort\<close>

text \<open>
  The only sources of non-determinism are \<open>crypto.getRandomValues\<close> and the order in
  which \<open>Array.prototype.sort\<close> leaves an array under a comparator that answers at
  random. Both are parameters of the model. \<open>getRandomValues e k\<close> is the 32-bit value
  the \<open>k\<close>-th call delivers; the position \<open>pos\<close> threaded through every function is the
  number of values consumed so far.

  \<open>arraySort e cmp xs\<close> is the engine's sort of \<open>xs\<close> when the \<open>i\<close>-th call of the
  comparator answers \<open>cmp i\<close> (the comparator of the source ignores its arguments): it
  returns the sorted array and the number of comparator calls it made.
\<close>

datatype poolIndex = I0 | I1 | I2 | I3

record env =
  getRandomValues :: "nat \<Rightarrow> 32 word"
  arraySort :: "(nat \<Rightarrow> int) \<Rightarrow> poolIndex list \<Rightarrow> poolIndex list \<times> nat"

text \<open>What ECMAScript promises of any sort: the result is a rearrangement of the array.\<close>

definition sort_permutes :: "env \<Rightarrow> bool" where
  "sort_permutes e = (\<forall>cmp xs. set (fst (arraySort e cmp xs)) = set xs)"

text \<open>
  A sort to run the model with: insertion sort, one comparator call per comparison. The
  sorted part is kept with its last element first; a new element moves left past a sorted
  element while the comparator answers a negative number.
\<close>

fun insertFrom :: "(nat \<Rightarrow> int) \<Rightarrow> nat \<Rightarrow> 'a \<Rightarrow> 'a list \<Rightarrow> 'a list \<times> nat" where
  "insertFrom cmp k x [] = ([x], k)"
| "insertFrom cmp k x (y # ys) =
     (if cmp k < 0 then (let (zs, k') = insertFrom cmp (Suc k) x ys in (y # zs, k'))
      else (x # y # ys, Suc k))"

fun insertionSortFrom :: "(nat \<Rightarrow> int) \<Rightarrow> nat \<Rightarrow> 'a list \<Rightarrow> 'a list \<Rightarrow> 'a list \<times> nat" where
  "insertionSortFrom cmp k done [] = (rev done, k)"
| "insertionSortFrom cmp k done (x # xs) =
     (let (done', k') = insertFrom cmp k x done in insertionSortFrom cmp k' done' xs)"

definition insertionSort :: "(nat \<Rightarrow> int) \<Rightarrow> 'a list \<Rightarrow> 'a list \<times> nat" where
  "insertionSort cmp xs = insertionSortFrom cmp 0 [] xs"

section \<open>Generator (src/lib/generator.js, first module)\<close>

text \<open>\<open>array[0] % max\<close> of one fresh 32-bit value; every caller passes \<open>max > 0\<close>.\<close>

definition secureRandomInt :: "env \<Rightarrow> nat \<Rightarrow> nat \<Rightarrow> nat \<times> nat" where
  "secureRandomInt e m pos = (unat (getRandomValues e pos) mod m, Suc pos)"

text \<open>\<open>chars[i]\<close> of a string is the string of its \<open>i\<close>-th code unit.\<close>

definition randomChar :: "env \<Rightarrow> jsstring \<Rightarrow> nat \<Rightarrow> jsstring \<times> nat" where
  "randomChar e chars pos =
     (let (i, pos') = secureRandomInt e (length chars) pos in ([chars ! i], pos'))"

text \<open>The loop of \<open>shuffle\<close> at index \<open>i\<close>, counting down to 1.\<close>

fun shuffleLoop :: "env \<Rightarrow> nat \<Rightarrow> 'a list \<Rightarrow> nat \<Rightarrow> 'a list \<times> nat" where
  "shuffleLoop e 0 arr pos = (arr, pos)"
| "shuffleLoop e (Suc i) arr pos =
     (let (j, pos') = secureRandomInt e (Suc i + 1) pos
      in shuffleLoop e i (arr[Suc i := arr ! j, j := arr ! Suc i]) pos')"

definition shuffle :: "env \<Rightarrow> 'a list \<Rightarrow> nat \<Rightarrow> 'a list \<times> nat" where
  "shuffle e arr pos = shuffleLoop e (length arr - 1) arr pos"

text \<open>The working state of one attempt of \<open>generate\<close>: the array \<open>chars\<close> and the Map \<open>counts\<close>.\<close>

type_synonym gstate = "jsstring list \<times> counts"

definition addChar :: "jsstring \<Rightarrow> gstate \<Rightarrow> gstate" where
  "addChar ch st =
     (case st of (chars, counts) \<Rightarrow>
        (chars @ [ch], incCount ch counts))"

definition pool :: jsstring where
  "pool = the (CHAR_CLASSES Uppercase) @ the (CHAR_CLASSES Lowercase) @
          the (CHAR_CLASSES Digit) @ the (CHAR_CLASSES Special)"

text \<open>
  The inner loop \<open>for (tries = 0; tries < 100; tries++)\<close>: the result says whether a
  character was added.
\<close>

function drawLoop :: "env \<Rightarrow> nat \<Rightarrow> gstate \<Rightarrow> nat \<Rightarrow> gstate \<times> bool \<times> nat" where
  "drawLoop e tries st pos =
     (if tries < 100 then
        (let (ch, pos') = randomChar e pool pos
         in if getOr 0 (snd st) (Some ch) < 2 then (addChar ch st, True, pos')
            else drawLoop e (tries + 1) st pos')
      else (st, False, pos))"
  by pat_completeness auto
termination
  by (relation "measure (\<lambda>(e, tries, st, pos). 100 - tries)") auto

text \<open>The fallback scan \<open>for (const ch of pool)\<close> with its \<open>break\<close>.\<close>

definition scanPool :: "gstate \<Rightarrow> gstate" where
  "scanPool st =
     (case find (\<lambda>ch. getOr 0 (snd st) (Some ch) < 2) (codePoints pool) of
        Some ch \<Rightarrow> addChar ch st
      | None \<Rightarrow> st)"

definition fillSlot :: "env \<Rightarrow> gstate \<Rightarrow> nat \<Rightarrow> gstate \<times> nat" where
  "fillSlot e st pos =
     (let (st', added, pos') = drawLoop e 0 st pos
      in if \<not> added then (scanPool st', pos') else (st', pos'))"

text \<open>The loop \<open>for (i = chars.length; i < length; i++)\<close>.\<close>

function fillLoop :: "env \<Rightarrow> int \<Rightarrow> int \<Rightarrow> gstate \<Rightarrow> nat \<Rightarrow> gstate \<times> nat" where
  "fillLoop e len i st pos =
     (if i < len then
        (let (st', pos') = fillSlot e st pos in fillLoop e len (i + 1) st' pos')
      else (st, pos))"
  by pat_completeness auto
termination
  by (relation "measure (\<lambda>(e, len, i, st, pos). nat (len - i))") auto

text \<open>The body of one attempt up to \<open>chars.join('')\<close>.\<close>

definition generateAttempt :: "env \<Rightarrow> int \<Rightarrow> nat \<Rightarrow> jsstring \<times> nat" where
  "generateAttempt e len pos =
     (let st = ([], []);
          (c1, pos) = randomChar e (the (CHAR_CLASSES Uppercase)) pos; st = addChar c1 st;
          (c2, pos) = randomChar e (the (CHAR_CLASSES Lowercase)) pos; st = addChar c2 st;
          (c3, pos) = randomChar e (the (CHAR_CLASSES Digit)) pos; st = addChar c3 st;
          (c4, pos) = randomChar e (the (CHAR_CLASSES Special)) pos; st = addChar c4 st;
          (st, pos) = fillLoop e len (int (length (fst st))) st pos;
          (chars, pos) = shuffle e (fst st) pos
      in (concat chars, pos))"

record generateResult =
  password :: jsstring
  gvalid :: bool

text \<open>
  The loop \<open>for (attempt = 0; attempt < 10; attempt++)\<close> and the fallback after it. The
  second component of the result is the number of attempts that were run.
\<close>

function generateLoop :: "env \<Rightarrow> int \<Rightarrow> nat \<Rightarrow> nat \<Rightarrow> generateResult \<times> nat \<times> nat" where
  "generateLoop e len attempt pos =
     (if attempt < 10 then
        (let (password, pos') = generateAttempt e len pos
         in if overall (validate password)
            then (\<lparr>password = password, gvalid = True\<rparr>, attempt + 1, pos')
            else generateLoop e len (attempt + 1) pos')
      else (\<lparr>password = [], gvalid = False\<rparr>, attempt, pos))"
  by pat_completeness auto
termination
  by (relation "measure (\<lambda>(e, len, attempt, pos). 10 - attempt)") auto

definition generate_run :: "env \<Rightarrow> int \<Rightarrow> nat \<Rightarrow> generateResult \<times> nat \<times> nat" where
  "generate_run e len pos = generateLoop e (max 8 (min 40 len)) 0 pos"

text \<open>\<open>generate(length)\<close> for an integer \<open>length\<close>, started at position \<open>pos\<close> of the random values.\<close>

definition generate :: "env \<Rightarrow> int \<Rightarrow> nat \<Rightarrow> generateResult" where
  "generate e len pos = fst (generate_run e len pos)"

section \<open>Fixer (src/lib/generator.js, second module)\<close>

definition pickAvailable :: "env \<Rightarrow> jsstring \<Rightarrow> counts \<Rightarrow> nat \<Rightarrow> jsstring option \<times> nat" where
  "pickAvailable e pl counts pos =
     (let candidates = filter (\<lambda>ch. getOr 0 counts (Some ch) < 2) (codePoints pl)
      in if length candidates = 0 then (None, pos)
         else (let (i, pos') = secureRandomInt e (length candidates) pos
               in (Some (candidates ! i), pos')))"

text \<open>The array \<open>allPools\<close>, read at an element of \<open>[0, 1, 2, 3]\<close>.\<close>

fun allPools :: "poolIndex \<Rightarrow> jsstring" where
  "allPools I0 = the (CHAR_CLASSES Uppercase)"
| "allPools I1 = the (CHAR_CLASSES Lowercase)"
| "allPools I2 = the (CHAR_CLASSES Digit)"
| "allPools I3 = the (CHAR_CLASSES Special)"

text \<open>A string or \<open>null\<close> in a condition: \<open>null\<close> and the empty string are falsy.\<close>

fun truthy :: "jsstring option \<Rightarrow> bool" where
  "truthy None = False"
| "truthy (Some s) = (s \<noteq> [])"

text \<open>The loop \<open>for (const i of order)\<close> of \<open>pickAnyAvailable\<close>.\<close>

fun pickInOrder :: "env \<Rightarrow> poolIndex list \<Rightarrow> counts \<Rightarrow> nat \<Rightarrow> jsstring option \<times> nat" where
  "pickInOrder e [] counts pos = (None, pos)"
| "pickInOrder e (i # order) counts pos =
     (let (ch, pos') = pickAvailable e (allPools i) counts pos
      in if truthy ch then (ch, pos') else pickInOrder e order counts pos')"

text \<open>
  \<open>[0, 1, 2, 3].sort(() => secureRandomInt(3) - 1)\<close>: the \<open>i\<close>-th comparator call
  consumes the \<open>i\<close>-th next random value.
\<close>

definition sortedOrder :: "env \<Rightarrow> nat \<Rightarrow> poolIndex list \<times> nat" where
  "sortedOrder e pos =
     (let (order, calls) =
            arraySort e (\<lambda>i. int (fst (secureRandomInt e 3 (pos + i))) - 1) [I0, I1, I2, I3]
      in (order, pos + calls))"

definition pickAnyAvailable :: "env \<Rightarrow> counts \<Rightarrow> nat \<Rightarrow> jsstring option \<times> nat" where
  "pickAnyAvailable e counts pos =
     (let (order, pos') = sortedOrder e pos in pickInOrder e order counts pos')"

definition getPool :: "charClass \<Rightarrow> jsstring" where
  "getPool className = (case CHAR_CLASSES className of Some p \<Rightarrow> p | None \<Rightarrow> [])"

record change =
  c_index :: int
  c_from :: "jsstring option"
  c_to :: jsstring

record fixResult =
  original :: jsstring
  fixed :: jsstring
  changes :: "change list"
  valid :: bool

text \<open>
  The mutable state of \<open>tryFix\<close>. \<open>f_chars\<close> holds the elements of the array \<open>chars\<close>
  at the indices below its length. \<open>f_minus1\<close> is the value of its property \<open>-1\<close>,
  which an assignment \<open>chars[-1] = v\<close> creates without changing the length and which
  \<open>join\<close> and the iterations never see; \<open>None\<close> is \<open>undefined\<close>.
\<close>

record fstate =
  f_chars :: "jsstring list"
  f_minus1 :: "jsstring option"
  f_counts :: counts
  f_changes :: "change list"
  f_pos :: nat

text \<open>\<open>classifyChar\<close> of a Map key; at \<open>undefined\<close> every comparison and \<open>includes\<close> is false.\<close>

fun classifyKey :: "jsstring option \<Rightarrow> charClass" where
  "classifyKey None = Unknown"
| "classifyKey (Some ch) = classifyChar ch"

text \<open>
  The substitution that phases 1, 2 and 4 share: record the change, overwrite the
  element and move one count from the old character to the new one.
\<close>

definition moveCount :: "jsstring option \<Rightarrow> jsstring \<Rightarrow> counts \<Rightarrow> counts" where
  "moveCount oldCh replacement counts =
     (let counts = AList.update oldCh (getOr 1 counts oldCh - 1) counts
      in incCount replacement counts)"

text \<open>Lines 197 to 204: the substitute for an occurrence of the violator \<open>ch\<close>.\<close>

definition pickReplacement :: "env \<Rightarrow> jsstring option \<Rightarrow> counts \<Rightarrow> nat \<Rightarrow> jsstring option \<times> nat" where
  "pickReplacement e ch counts pos =
     (let cls = classifyKey ch;
          pl = (if cls \<noteq> Unknown then getPool cls else []);
          (replacement, pos) = (if pl \<noteq> [] then pickAvailable e pl counts pos else (None, pos))
      in if \<not> truthy replacement then pickAnyAvailable e counts pos else (replacement, pos))"

text \<open>The loop \<open>for (const idx of indices)\<close> of phase 1 with its counter \<open>replaced\<close>.\<close>

fun replaceLoop :: "env \<Rightarrow> jsstring option \<Rightarrow> nat \<Rightarrow> nat list \<Rightarrow> nat \<Rightarrow> fstate \<Rightarrow> fstate" where
  "replaceLoop e ch excess [] replaced st = st"
| "replaceLoop e ch excess (idx # indices) replaced st =
     (if replaced \<ge> excess then st
      else
        (let (replacement, pos) = pickReplacement e ch (f_counts st) (f_pos st)
         in case replacement of
              Some r \<Rightarrow>
                (if r \<noteq> [] then
                   replaceLoop e ch excess indices (replaced + 1)
                     (st\<lparr>f_changes := f_changes st @ [\<lparr>c_index = int idx, c_from = ch, c_to = r\<rparr>],
                         f_chars := (f_chars st)[idx := r],
                         f_counts := moveCount ch r (f_counts st),
                         f_pos := pos\<rparr>)
                 else replaceLoop e ch excess indices replaced (st\<lparr>f_pos := pos\<rparr>))
            | None \<Rightarrow> replaceLoop e ch excess indices replaced (st\<lparr>f_pos := pos\<rparr>)))"

text \<open>The body of \<open>for (const { ch, excess } of violators)\<close>.\<close>

definition fixViolator :: "env \<Rightarrow> jsstring option \<times> nat \<Rightarrow> fstate \<Rightarrow> fstate" where
  "fixViolator e v st =
     (case v of (ch, excess) \<Rightarrow>
        (let indices = filter (\<lambda>i. Some (f_chars st ! i) = ch) (rev [0..<length (f_chars st)])
         in replaceLoop e ch excess indices 0 st))"

text \<open>The list \<open>violators\<close>: the characters counted more than twice, each with its excess.\<close>

definition collectViolators :: "counts \<Rightarrow> (jsstring option \<times> nat) list" where
  "collectViolators counts = map (\<lambda>(ch, n). (ch, n - 2)) (filter (\<lambda>(ch, n). n > 2) counts)"

definition phase1 :: "env \<Rightarrow> fstate \<Rightarrow> fstate" where
  "phase1 e st =
     (let violators = collectViolators (f_counts st)
      in fold (fixViolator e) violators st)"

text \<open>The four \<open>test\<close> functions of \<open>classChecks\<close>.\<close>

fun classTest :: "charClass \<Rightarrow> jsstring list \<Rightarrow> bool" where
  "classTest Uppercase chars = list_ex (\<lambda>c. js ''A'' \<le> c \<and> c \<le> js ''Z'') chars"
| "classTest Lowercase chars = list_ex (\<lambda>c. js ''a'' \<le> c \<and> c \<le> js ''z'') chars"
| "classTest Digit chars = list_ex (\<lambda>c. js ''0'' \<le> c \<and> c \<le> js ''9'') chars"
| "classTest Special chars = list_ex (\<lambda>c. str_includes (the (CHAR_CLASSES Special)) c) chars"
| "classTest Unknown chars = False"

text \<open>The object \<open>classCounts\<close> after its loop, as a function of the class.\<close>

definition classCounts :: "jsstring list \<Rightarrow> charClass \<Rightarrow> nat" where
  "classCounts chars =
     fold (\<lambda>c cc. let cl = classifyChar c in if cl \<noteq> Unknown then cc(cl := cc cl + 1) else cc)
       chars (\<lambda>cl. 0)"

text \<open>
  The search for \<open>bestIdx\<close>, over the indices from the last to the first; \<open>break\<close> at an
  unknown character returns its index at once.
\<close>

fun bestLoop :: "charClass \<Rightarrow> (charClass \<Rightarrow> nat) \<Rightarrow> jsstring list \<Rightarrow> nat list \<Rightarrow> int \<Rightarrow> nat \<Rightarrow> int" where
  "bestLoop checkName cc chars [] bestIdx bestSurplus = bestIdx"
| "bestLoop checkName cc chars (i # is) bestIdx bestSurplus =
     (let cl = classifyChar (chars ! i)
      in if cl = checkName then bestLoop checkName cc chars is bestIdx bestSurplus
         else if cl = Unknown then int i
         else (let surplus = cc cl
               in if surplus > 1 \<and> surplus > bestSurplus
                  then bestLoop checkName cc chars is (int i) surplus
                  else bestLoop checkName cc chars is bestIdx bestSurplus))"

text \<open>
  The body of \<open>for (const check of classChecks)\<close>. \<open>bestIdx\<close> is an index of the array
  unless the array is empty: then it is \<open>-1\<close>, \<open>chars[-1]\<close> reads the property \<open>-1\<close> and
  the assignment writes it.
\<close>

definition classCheck :: "env \<Rightarrow> charClass \<Rightarrow> fstate \<Rightarrow> fstate" where
  "classCheck e checkName st =
     (if classTest checkName (f_chars st) then st
      else
        (let (replacement, pos) = pickAvailable e (getPool checkName) (f_counts st) (f_pos st)
         in case replacement of
              None \<Rightarrow> st\<lparr>f_pos := pos\<rparr>
            | Some r \<Rightarrow>
                (if r = [] then st\<lparr>f_pos := pos\<rparr>
                 else
                   (let chars = f_chars st;
                        cc = classCounts chars;
                        bestIdx = bestLoop checkName cc chars (rev [0..<length chars]) (- 1) 0;
                        bestIdx = (if bestIdx = - 1 then int (length chars) - 1 else bestIdx);
                        oldCh = (if bestIdx < 0 then f_minus1 st else Some (chars ! nat bestIdx))
                    in st\<lparr>f_changes := f_changes st @ [\<lparr>c_index = bestIdx, c_from = oldCh, c_to = r\<rparr>],
                          f_chars := (if bestIdx < 0 then chars else chars[nat bestIdx := r]),
                          f_minus1 := (if bestIdx < 0 then Some r else f_minus1 st),
                          f_counts := moveCount oldCh r (f_counts st),
                          f_pos := pos\<rparr>))))"

definition phase2 :: "env \<Rightarrow> fstate \<Rightarrow> fstate" where
  "phase2 e st = fold (classCheck e) [Uppercase, Lowercase, Digit, Special] st"

text \<open>The loop \<open>while (chars.length < 8)\<close>; an appended character is a change from \<open>''\<close>.\<close>

function phase3 :: "env \<Rightarrow> fstate \<Rightarrow> fstate" where
  "phase3 e st =
     (if length (f_chars st) < 8 then
        (let (ch, pos) = pickAnyAvailable e (f_counts st) (f_pos st)
         in case ch of
              None \<Rightarrow> st\<lparr>f_pos := pos\<rparr>
            | Some c \<Rightarrow>
                (if c = [] then st\<lparr>f_pos := pos\<rparr>
                 else phase3 e
                   (st\<lparr>f_chars := f_chars st @ [c],
                       f_counts := incCount c (f_counts st),
                       f_changes := f_changes st @
                         [\<lparr>c_index = int (length (f_chars st)), c_from = Some [], c_to = c\<rparr>],
                       f_pos := pos\<rparr>)))
      else st)"
  by pat_completeness auto
termination
  by (relation "measure (\<lambda>(e, st). 8 - length (f_chars st))") auto

text \<open>The body of the last loop, at index \<open>i\<close>.\<close>

definition cleanStep :: "env \<Rightarrow> nat \<Rightarrow> fstate \<Rightarrow> fstate" where
  "cleanStep e i st =
     (if classifyChar (f_chars st ! i) = Unknown then
        (let (replacement, pos) = pickAnyAvailable e (f_counts st) (f_pos st)
         in case replacement of
              None \<Rightarrow> st\<lparr>f_pos := pos\<rparr>
            | Some r \<Rightarrow>
                (if r = [] then st\<lparr>f_pos := pos\<rparr>
                 else
                   (let oldCh = Some (f_chars st ! i)
                    in st\<lparr>f_changes := f_changes st @ [\<lparr>c_index = int i, c_from = oldCh, c_to = r\<rparr>],
                          f_counts := moveCount oldCh r (f_counts st),
                          f_chars := (f_chars st)[i := r],
                          f_pos := pos\<rparr>)))
      else st)"

definition phase4 :: "env \<Rightarrow> fstate \<Rightarrow> fstate" where
  "phase4 e st = fold (cleanStep e) [0..<length (f_chars st)] st"

text \<open>The state after the four declarations at the head of \<open>tryFix\<close>.\<close>

definition tryFix_init :: "jsstring \<Rightarrow> nat \<Rightarrow> fstate" where
  "tryFix_init pw pos =
     \<lparr>f_chars = codePoints pw, f_minus1 = None, f_counts = countChars pw,
      f_changes = [], f_pos = pos\<rparr>"

definition tryFix_state :: "env \<Rightarrow> jsstring \<Rightarrow> nat \<Rightarrow> fstate" where
  "tryFix_state e pw pos = phase4 e (phase3 e (phase2 e (phase1 e (tryFix_init pw pos))))"

definition tryFix :: "env \<Rightarrow> jsstring \<Rightarrow> nat \<Rightarrow> fixResult \<times> nat" where
  "tryFix e pw pos =
     (let st = tryFix_state e pw pos;
          fixed = concat (f_chars st);
          validation = validate fixed
      in (\<lparr>original = pw, fixed = fixed, changes = f_changes st,
           valid = overall validation\<rparr>, f_pos st))"

text \<open>
  The loop of \<open>fix\<close> and the call after it. The second component of the result is the
  number of calls of \<open>tryFix\<close> that were made.
\<close>

function fixLoop :: "env \<Rightarrow> jsstring \<Rightarrow> nat \<Rightarrow> nat \<Rightarrow> fixResult \<times> nat \<times> nat" where
  "fixLoop e pw attempt pos =
     (if attempt < 3 then
        (let (result, pos') = tryFix e pw pos
         in if valid result then (result, attempt + 1, pos')
            else fixLoop e pw (attempt + 1) pos')
      else (let (result, pos') = tryFix e pw pos in (result, attempt + 1, pos')))"
  by pat_completeness auto
termination
  by (relation "measure (\<lambda>(e, pw, attempt, pos). 3 - attempt)") auto

definition fix_run :: "env \<Rightarrow> jsstring \<Rightarrow> nat \<Rightarrow> fixResult \<times> nat \<times> nat" where
  "fix_run e pw pos = fixLoop e pw 0 pos"

text \<open>\<open>fix(password)\<close>, started at position \<open>pos\<close> of the random values.\<close>

definition fix_pw :: "env \<Rightarrow> jsstring \<Rightarrow> nat \<Rightarrow> fixResult" where
  "fix_pw e pw pos = fst (fix_run e pw pos)"

section \<open>Auxiliary definitions for the proofs\<close>

text \<open>What the string iterator can yield: one code unit, or a surrogate pair.\<close>

definition isCodePoint :: "jsstring \<Rightarrow> bool" where
  "isCodePoint c = ((\<exists>u. c = [u]) \<or> (\<exists>u v. c = [u, v] \<and> isLead u \<and> isTrail v))"

text \<open>
  A concrete environment: every random value is 1, so every \<open>secureRandomInt(3) - 1\<close> of
  the comparator is 0, and the sort is the insertion sort above, which then leaves
  \<open>[0, 1, 2, 3]\<close> in place, as every stable sort does.
\<close>

definition env_ones :: env where
  "env_ones = \<lparr>getRandomValues = (\<lambda>k. 1), arraySort = insertionSort\<rparr>"

text \<open>The characters of the pool, as the string iterator yields them.\<close>

definition poolChars :: "jsstring list" where
  "poolChars = codePoints pool"

text \<open>
  The invariant of one attempt of \<open>generate\<close>: the characters come from the pool, the
  Map holds their numbers of occurrences, and none occurs more than twice.
\<close>

definition ginv :: "gstate \<Rightarrow> bool" where
  "ginv st =
     (set (fst st) \<subseteq> set poolChars \<and>
      (\<forall>c. getOr 0 (snd st) (Some c) = count_list (fst st) c) \<and>
      (\<forall>c. count_list (fst st) c \<le> 2))"

text \<open>\<open>st'\<close> is \<open>st\<close> with one pool character added whose count was below 2.\<close>

definition added_ok :: "gstate \<Rightarrow> gstate \<Rightarrow> bool" where
  "added_ok st st' =
     (\<exists>ch\<in>set poolChars. getOr 0 (snd st) (Some ch) < 2 \<and> st' = addChar ch st)"

text \<open>A character is available for insertion while the Map counts it fewer than 2 times.\<close>

definition avail :: "counts \<Rightarrow> jsstring \<Rightarrow> bool" where
  "avail m c = (getOr 0 m (Some c) < 2)"

text \<open>
  The characters the Map of \<open>tryFix\<close> accounts for: the elements of the array and, when
  it has been written, the value of the property \<open>-1\<close>.
\<close>

definition held :: "fstate \<Rightarrow> jsstring list" where
  "held st = f_chars st @ (case f_minus1 st of None \<Rightarrow> [] | Some x \<Rightarrow> [x])"

definition lockstep :: "fstate \<Rightarrow> bool" where
  "lockstep st = (\<forall>c. getOr 0 (f_counts st) (Some c) = count_list (held st) c)"

text \<open>The indices at which \<open>c\<close> occurs in \<open>xs\<close>, from the last to the first.\<close>

definition occurrences :: "'a list \<Rightarrow> 'a \<Rightarrow> nat list" where
  "occurrences xs c = filter (\<lambda>i. xs ! i = c) (rev [0..<length xs])"

text \<open>
  Position \<open>i\<close> holds one of the \<open>count - 2\<close> rightmost occurrences of its character,
  a character that occurs more than twice: fewer than \<open>count - 2\<close> occurrences lie to
  its right.
\<close>

definition rightmost_excess :: "'a list \<Rightarrow> nat \<Rightarrow> bool" where
  "rightmost_excess xs i =
     (count_list (drop (Suc i) xs) (xs ! i) + 2 < count_list xs (xs ! i))"

text \<open>
  The invariant of \<open>tryFix\<close> from the end of phase 1 on, for a password of at most 144
  characters: the Map is in lock-step with the characters held, at most 144 characters are
  held, every element of the array is a code point, and none is held more than twice.
\<close>

definition fixinv :: "fstate \<Rightarrow> bool" where
  "fixinv st =
     (lockstep st \<and> length (held st) \<le> 144 \<and> (\<forall>c\<in>set (f_chars st). isCodePoint c) \<and>
      (\<forall>c. count_list (held st) c \<le> 2))"

text \<open>The three ways a step of phases 2 to 4 changes the characters and the counts.\<close>

definition same_step :: "fstate \<Rightarrow> fstate \<Rightarrow> bool" where
  "same_step st st' =
     (f_chars st' = f_chars st \<and> f_minus1 st' = f_minus1 st \<and> f_counts st' = f_counts st)"

definition subst_step :: "fstate \<Rightarrow> fstate \<Rightarrow> bool" where
  "subst_step st st' =
     (\<exists>r idx. r \<in> set poolChars \<and> avail (f_counts st) r \<and> idx < length (held st) \<and>
        held st' = (held st)[idx := r] \<and>
        f_counts st' = moveCount (Some (held st ! idx)) r (f_counts st) \<and>
        length (f_chars st') = length (f_chars st) \<and>
        set (f_chars st') \<subseteq> insert r (set (f_chars st)))"

definition grow_step :: "fstate \<Rightarrow> fstate \<Rightarrow> bool" where
  "grow_step st st' =
     (\<exists>r. r \<in> set poolChars \<and> avail (f_counts st) r \<and>
        (\<forall>c. count_list (held st') c = count_list (held st) c + (if c = r then 1 else 0)) \<and>
        (\<forall>c. getOr 0 (f_counts st') (Some c) =
              getOr 0 (f_counts st) (Some c) + (if c = r then 1 else 0)) \<and>
        length (held st') = Suc (length (held st)) \<and>
        set (f_chars st') \<subseteq> insert r (set (f_chars st)))"

text \<open>Two states that differ at most in the number of random values consumed.\<close>

definition eq_but_pos :: "fstate \<Rightarrow> fstate \<Rightarrow> bool" where
  "eq_but_pos st st' =
     (f_chars st' = f_chars st \<and> f_minus1 st' = f_minus1 st \<and> f_counts st' = f_counts st \<and>
      f_changes st' = f_changes st)"

text \<open>No character of the pool is available any more.\<close>

definition exhausted :: "counts \<Rightarrow> bool" where
  "exhausted m = (\<forall>c\<in>set poolChars. \<not> avail m c)"

section \<open>Lemmas about strings, counts and classes\<close>

text \<open>The loops are unfolded by hand, one iteration at a time.\<close>

declare drawLoop.simps [simp del]
declare fillLoop.simps [simp del]
declare generateLoop.simps [simp del]
declare phase3.simps [simp del]
declare fixLoop.simps [simp del]

subsection \<open>Strings and code points\<close>

lemma concat_codePoints: "concat (codePoints s) = s"
  by (induction s rule: codePoints.induct) auto

lemma codePoints_isCodePoint: "c \<in> set (codePoints s) \<Longrightarrow> isCodePoint c"
  by (induction s rule: codePoints.induct) (auto simp: isCodePoint_def split: if_splits)

lemma unit_in_codePoints:
  "u \<in> set s \<Longrightarrow> \<not> isLead u \<Longrightarrow> \<not> isTrail u \<Longrightarrow> [u] \<in> set (codePoints s)"
  by (induction s rule: codePoints.induct) (auto split: if_splits)

lemma codePoints_unit: "[u] \<in> set (codePoints s) \<Longrightarrow> u \<in> set s"
  by (induction s rule: codePoints.induct) (auto split: if_splits)

lemma str_includes_single: "str_includes s [u] = (u \<in> set s)"
  by (induction s) auto

lemma str_includes_head: "str_includes s (x # t) \<Longrightarrow> x \<in> set s"
  by (induction s) auto

lemma special_units: "SPECIAL_CHARS = [0x23, 0x3F, 0x21, 0x40, 0x24, 0x25, 0x5E, 0x26, 0x2A, 0x2D]"
  by (simp add: SPECIAL_CHARS_def js_def)

lemma single_le_single: "([a :: 'a :: linorder] \<le> [b]) = (a \<le> b)"
  by (auto simp: less_le)

lemma pair_le_single: "([a :: 'a :: linorder, c] \<le> [b]) = (a < b)"
  by auto

lemma single_le_pair: "([a :: 'a :: linorder] \<le> [b, c]) = (a \<le> b)"
  by (auto simp: less_le)

lemma classifyChar_single:
  "classifyChar [u] =
     (if 0x41 \<le> u \<and> u \<le> 0x5A then Uppercase
      else if 0x61 \<le> u \<and> u \<le> 0x7A then Lowercase
      else if 0x30 \<le> u \<and> u \<le> 0x39 then Digit
      else if u \<in> set SPECIAL_CHARS then Special
      else Unknown)"
  by (simp add: classifyChar_def js_def str_includes_single single_le_single del: Cons_le_Cons)

lemma lead_not_ascii: "isLead u \<Longrightarrow> \<not> u \<le> 0x7F"
  unfolding isLead_def
proof
  assume "0xD800 \<le> u \<and> u \<le> 0xDBFF" and "u \<le> 0x7F"
  then have "(0xD800 :: 16 word) \<le> 0x7F" by (meson order_trans)
  then show False by simp
qed

lemma trail_not_ascii: "isTrail u \<Longrightarrow> \<not> u \<le> 0x7F"
  unfolding isTrail_def
proof
  assume "0xDC00 \<le> u \<and> u \<le> 0xDFFF" and "u \<le> 0x7F"
  then have "(0xDC00 :: 16 word) \<le> 0x7F" by (meson order_trans)
  then show False by simp
qed

lemma classifyChar_pair: "isLead u \<Longrightarrow> classifyChar [u, v] = Unknown"
proof -
  assume l: "isLead u"
  have n: "\<not> u \<le> 0x7F" using l by (rule lead_not_ascii)
  have a: "\<not> u \<le> 0x5A" "\<not> u \<le> 0x7A" "\<not> u \<le> 0x39"
    using n by (auto dest: order_trans [where z = "0x7F"])
  have "u \<notin> set SPECIAL_CHARS"
    using n by (auto simp: special_units)
  then have s: "\<not> str_includes SPECIAL_CHARS [u, v]"
    by (auto dest: str_includes_head)
  have b: "\<not> u < 0x5A" "\<not> u < 0x7A" "\<not> u < 0x39"
    using a by auto
  show ?thesis
    using b s by (simp add: classifyChar_def js_def pair_le_single del: Cons_le_Cons)
qed


subsection \<open>Counting characters\<close>

lemma getOr0: "getOr 0 m k = (case map_of m k of None \<Rightarrow> 0 | Some n \<Rightarrow> n)"
  by (simp add: getOr_def split: option.split)

lemma getOr0_update:
  "getOr 0 (AList.update k v m) k' = (if k' = k then v else getOr 0 m k')"
  by (simp add: getOr0 update_conv')

lemma getOr0_incCount:
  "getOr 0 (incCount c m) k = (if k = Some c then getOr 0 m k + 1 else getOr 0 m k)"
  by (simp add: incCount_def getOr0_update)

lemma map_of_incCount:
  "map_of (incCount c m) = (map_of m)(Some c \<mapsto> getOr 0 m (Some c) + 1)"
  by (simp add: incCount_def update_conv')

lemma fold_counts_map_of:
  "map_of (fold incCount cs m) k =
     (case k of
        None \<Rightarrow> map_of m None
      | Some c \<Rightarrow> if c \<in> set cs then Some (getOr 0 m (Some c) + count_list cs c)
                  else map_of m (Some c))"
proof (induction cs arbitrary: m)
  case Nil
  then show ?case by (simp split: option.split)
next
  case (Cons x xs)
  show ?case
    by (simp add: Cons.IH getOr0_incCount map_of_incCount split: option.split)
qed

lemma fold_counts_distinct:
  "distinct (map fst m) \<Longrightarrow>
   distinct (map fst (fold incCount cs m))"
  by (induction cs arbitrary: m) (simp_all add: distinct_update incCount_def)

lemma countChars_map_of:
  "map_of (countChars s) k =
     (case k of
        None \<Rightarrow> None
      | Some c \<Rightarrow> if c \<in> set (codePoints s) then Some (count_list (codePoints s) c) else None)"
  by (simp add: countChars_def fold_counts_map_of getOr0 split: option.split)

lemma countChars_distinct: "distinct (map fst (countChars s))"
  by (simp add: countChars_def fold_counts_distinct)

lemma countChars_getOr: "getOr 0 (countChars s) (Some c) = count_list (codePoints s) c"
  by (simp add: getOr0 countChars_map_of count_list_0_iff)

lemma countChars_entry:
  "((k, n) \<in> set (countChars s)) =
     (\<exists>c. k = Some c \<and> c \<in> set (codePoints s) \<and> n = count_list (codePoints s) c)"
proof -
  have "((k, n) \<in> set (countChars s)) = (map_of (countChars s) k = Some n)"
    using countChars_distinct by (metis map_of_eq_Some_iff)
  then show ?thesis
    by (auto simp: countChars_map_of split: option.splits if_splits)
qed

lemma no_violators_iff:
  "(filter (\<lambda>(ch, n). n > 2) (countChars s) = []) = (\<forall>c. count_list (codePoints s) c \<le> 2)"
proof -
  have "(filter (\<lambda>(ch, n). n > 2) (countChars s) = []) =
        (\<forall>k n. (k, n) \<in> set (countChars s) \<longrightarrow> n \<le> 2)"
    by (fastforce simp: filter_empty_conv not_less)
  also have "\<dots> = (\<forall>c\<in>set (codePoints s). count_list (codePoints s) c \<le> 2)"
    by (auto simp: countChars_entry)
  also have "\<dots> = (\<forall>c. count_list (codePoints s) c \<le> 2)"
    by (metis count_list_0_iff zero_le)
  finally show ?thesis .
qed

subsection \<open>The regular expressions of the validator\<close>

lemma test_range_codePoints:
  assumes "hi \<le> 0x7F"
  shows "test_range lo hi s = (\<exists>u. [u] \<in> set (codePoints s) \<and> lo \<le> u \<and> u \<le> hi)"
proof -
  have ascii: "\<not> isLead u \<and> \<not> isTrail u" if "u \<le> hi" for u
    using that assms lead_not_ascii trail_not_ascii by (meson order_trans)
  show ?thesis
    unfolding test_range_def list_ex_iff
    using ascii unit_in_codePoints codePoints_unit by blast
qed

lemma test_set_codePoints:
  assumes "\<forall>u\<in>set cs. u \<le> 0x7F"
  shows "test_set cs s = (\<exists>u. [u] \<in> set (codePoints s) \<and> u \<in> set cs)"
proof -
  have ascii: "\<not> isLead u \<and> \<not> isTrail u" if "u \<in> set cs" for u
    using that assms lead_not_ascii trail_not_ascii by blast
  show ?thesis
    unfolding test_set_def list_ex_iff
    using ascii unit_in_codePoints codePoints_unit by blast
qed

lemma class_in_codePoints:
  "(\<exists>c\<in>set (codePoints s). classifyChar c = cls \<and> P c) =
   (\<exists>u. [u] \<in> set (codePoints s) \<and> classifyChar [u] = cls \<and> P [u]) \<or>
   (\<exists>u v. [u, v] \<in> set (codePoints s) \<and> isLead u \<and> classifyChar [u, v] = cls \<and> P [u, v])"
  using codePoints_isCodePoint unfolding isCodePoint_def by blast

lemma has_class_iff:
  "cls \<noteq> Unknown \<Longrightarrow>
   (\<exists>c\<in>set (codePoints s). classifyChar c = cls) =
   (\<exists>u. [u] \<in> set (codePoints s) \<and> classifyChar [u] = cls)"
  using class_in_codePoints [of s cls "\<lambda>c. True"] by (auto simp: classifyChar_pair)

lemma upper_iff: "(classifyChar [u] = Uppercase) = (0x41 \<le> u \<and> u \<le> 0x5A)"
  by (simp add: classifyChar_single)

lemma above_not_below: "lo \<le> (u :: 16 word) \<Longrightarrow> \<not> lo \<le> hi \<Longrightarrow> \<not> u \<le> hi"
  using order_trans by blast

lemma lower_iff: "(classifyChar [u] = Lowercase) = (0x61 \<le> u \<and> u \<le> 0x7A)"
  using above_not_below [of "0x61" u "0x5A"] by (auto simp: classifyChar_single)

lemma digit_iff: "(classifyChar [u] = Digit) = (0x30 \<le> u \<and> u \<le> 0x39)"
  using above_not_below [of "0x41" u "0x39"] above_not_below [of "0x61" u "0x39"]
  by (auto simp: classifyChar_single)

lemma special_iff: "(classifyChar [u] = Special) = (u \<in> set SPECIAL_CHARS)"
  by (auto simp: classifyChar_single special_units)

lemma special_ascii: "\<forall>u\<in>set (js ''#?!@$%^&*-''). u \<le> 0x7F"
  by (simp add: js_def)

lemma validate_overall_chars:
  "overall (validate s) =
     (8 \<le> length s \<and>
      (\<exists>c\<in>set (codePoints s). classifyChar c = Uppercase) \<and>
      (\<exists>c\<in>set (codePoints s). classifyChar c = Lowercase) \<and>
      (\<exists>c\<in>set (codePoints s). classifyChar c = Special) \<and>
      (\<exists>c\<in>set (codePoints s). classifyChar c = Digit) \<and>
      (\<forall>c. count_list (codePoints s) c \<le> 2))"
  by (simp add: validate_def Let_def no_violators_iff has_class_iff upper_iff lower_iff
      digit_iff special_iff test_range_codePoints test_set_codePoints [OF special_ascii]
      SPECIAL_CHARS_def)


section \<open>The validator's verdict\<close>

text \<open>
  Claim C1, as the code has it: \<open>validate(s).overall\<close> is true exactly when all six rule
  predicates hold, where rule 1 asks for a length of at least 8 counted in UTF-16 code
  units (\<open>password.length\<close>), rules 2 to 5 each ask for at least one character of the
  uppercase, lowercase, special and digit class, and rule 6 asks that no character
  (a code point of the string, compared case-sensitively) occurs more than twice.
\<close>

theorem validate_overall_iff:
  "overall (validate s) =
     (8 \<le> length s \<and>
      (\<exists>c\<in>set (codePoints s). classifyChar c = Uppercase) \<and>
      (\<exists>c\<in>set (codePoints s). classifyChar c = Lowercase) \<and>
      (\<exists>c\<in>set (codePoints s). classifyChar c = Special) \<and>
      (\<exists>c\<in>set (codePoints s). classifyChar c = Digit) \<and>
      (\<forall>c. count_list (codePoints s) c \<le> 2))"
  by (rule validate_overall_chars)

text \<open>
  The claim as stated counts rule 1 in code points. A string of four ASCII characters and
  two characters outside the Basic Multilingual Plane has 8 code units and 6 code points:
  the validator accepts it.
\<close>

theorem validate_code_point_length_counterexample:
  "overall (validate (js ''Ab1#'' @ [0xD83D, 0xDE00, 0xD83D, 0xDE01])) \<and>
   \<not> 8 \<le> length (codePoints (js ''Ab1#'' @ [0xD83D, 0xDE00, 0xD83D, 0xDE01]))"
  by code_simp

section \<open>The attempts of the fixer\<close>


lemma tryFix_valid:
  "valid (fst (tryFix e pw pos)) = overall (validate (fixed (fst (tryFix e pw pos))))"
  by (simp add: tryFix_def Let_def)

lemma fixLoop_valid:
  "valid (fst (fixLoop e pw attempt pos)) =
     overall (validate (fixed (fst (fixLoop e pw attempt pos))))"
proof (induction e pw attempt pos rule: fixLoop.induct)
  case (1 e pw attempt pos)
  obtain result pos' where t: "tryFix e pw pos = (result, pos')"
    by (cases "tryFix e pw pos")
  have r: "valid result = overall (validate (fixed result))"
    using tryFix_valid [of e pw pos] t by simp
  show ?case
  proof (cases "attempt < 3 \<and> \<not> valid result")
    case True
    then show ?thesis
      using "1.IH" [of "(result, pos')" result pos'] t
      by (subst (1 2) fixLoop.simps) simp
  next
    case False
    then show ?thesis
      using t r by (subst (1 2) fixLoop.simps) auto
  qed
qed

text \<open>
  Claim C2: for every string \<open>s\<close>, \<open>validate(fix(s).fixed).overall\<close> equals
  \<open>fix(s).valid\<close>: the flag is the verdict of the validator on the fixed string.
\<close>

theorem fix_valid_is_revalidation:
  "overall (validate (fixed (fix_pw e s pos))) = valid (fix_pw e s pos)"
  by (simp add: fix_pw_def fix_run_def fixLoop_valid)

lemma fixLoop_last:
  "\<not> attempt < 3 \<Longrightarrow>
   fixLoop e s attempt p = (fst (tryFix e s p), Suc attempt, snd (tryFix e s p))"
  by (subst fixLoop.simps) (simp add: split_def Let_def)

lemma fixLoop_step:
  "attempt < 3 \<Longrightarrow>
   fixLoop e s attempt p =
     (if valid (fst (tryFix e s p)) then (fst (tryFix e s p), Suc attempt, snd (tryFix e s p))
      else fixLoop e s (Suc attempt) (snd (tryFix e s p)))"
  by (subst fixLoop.simps) (simp add: split_def Let_def)

text \<open>
  Claim C4, as the code has it: \<open>fix(s)\<close> calls \<open>tryFix\<close> at most four times. It returns
  the result of the first of three attempts that is valid; when all three are invalid it
  runs a fourth attempt and returns its result, valid or not. The second component is
  the number of attempts made.
\<close>

theorem fix_attempts_unrolled:
  "fix_run e s p0 =
     (let (r1, p1) = tryFix e s p0 in
      if valid r1 then (r1, 1, p1) else
      let (r2, p2) = tryFix e s p1 in
      if valid r2 then (r2, 2, p2) else
      let (r3, p3) = tryFix e s p2 in
      if valid r3 then (r3, 3, p3) else
      let (r4, p4) = tryFix e s p3 in (r4, 4, p4))"
  by (simp add: fix_run_def fixLoop_step fixLoop_last split_def Let_def)

text \<open>
  The claim as stated allows three attempts. On \<open>Ab1\<close> with every random value 1, each
  attempt overwrites the digit with \<open>?\<close> and pads with \<open>BBCCD\<close>, which has no digit:
  three attempts fail and a fourth one is run.
\<close>

theorem fix_fourth_attempt_counterexample:
  "fst (snd (fix_run env_ones (js ''Ab1'') 0)) = 4 \<and>
   fixed (fix_pw env_ones (js ''Ab1'') 0) = js ''Ab?BBCCD'' \<and>
   \<not> valid (fix_pw env_ones (js ''Ab1'') 0)"
  by code_simp

section \<open>A valid password of known characters is left alone\<close>

lemma classTest_of_class:
  "c \<in> set chars \<Longrightarrow> classifyChar c = cls \<Longrightarrow> cls \<noteq> Unknown \<Longrightarrow> classTest cls chars"
  by (cases cls) (auto simp: classifyChar_def list_ex_iff split: if_splits)

lemma known_is_single: "isCodePoint c \<Longrightarrow> classifyChar c \<noteq> Unknown \<Longrightarrow> \<exists>u. c = [u]"
  by (auto simp: isCodePoint_def classifyChar_pair)

lemma length_concat_singles: "\<forall>c\<in>set cs. length c = 1 \<Longrightarrow> length (concat cs) = length cs"
  by (induction cs) auto

lemma known_length:
  assumes "\<forall>c\<in>set (codePoints s). classifyChar c \<noteq> Unknown"
  shows "length (codePoints s) = length s"
proof -
  have "\<forall>c\<in>set (codePoints s). length c = 1"
    using assms codePoints_isCodePoint known_is_single by fastforce
  then have "length (concat (codePoints s)) = length (codePoints s)"
    by (rule length_concat_singles)
  then show ?thesis by (simp add: concat_codePoints)
qed

lemma phase4_known:
  "\<forall>i\<in>set is. classifyChar (f_chars st ! i) \<noteq> Unknown \<Longrightarrow> fold (cleanStep e) is st = st"
  by (induction "is") (auto simp: cleanStep_def)

lemma tryFix_state_valid_known:
  assumes v: "overall (validate s)"
    and k: "\<forall>c\<in>set (codePoints s). classifyChar c \<noteq> Unknown"
  shows "tryFix_state e s pos = tryFix_init s pos"
proof -
  let ?st = "tryFix_init s pos"
  have i: "f_chars ?st = codePoints s" "f_counts ?st = countChars s"
    by (simp_all add: tryFix_init_def)
  from v have r: "8 \<le> length s"
    "\<exists>c\<in>set (codePoints s). classifyChar c = Uppercase"
    "\<exists>c\<in>set (codePoints s). classifyChar c = Lowercase"
    "\<exists>c\<in>set (codePoints s). classifyChar c = Special"
    "\<exists>c\<in>set (codePoints s). classifyChar c = Digit"
    "\<forall>c. count_list (codePoints s) c \<le> 2"
    by (simp_all add: validate_overall_chars)
  have "filter (\<lambda>(ch, n). n > 2) (countChars s) = []"
    using r(6) by (simp add: no_violators_iff)
  then have p1: "phase1 e ?st = ?st"
    by (simp add: phase1_def collectViolators_def i)
  have t: "classTest Uppercase (codePoints s)" "classTest Lowercase (codePoints s)"
    "classTest Digit (codePoints s)" "classTest Special (codePoints s)"
    using r(2-5) classTest_of_class by blast+
  have p2: "phase2 e ?st = ?st"
    using t by (simp add: phase2_def classCheck_def i)
  have p3: "phase3 e ?st = ?st"
    using r(1) known_length [OF k] by (subst phase3.simps) (simp add: i)
  have p4: "phase4 e ?st = ?st"
    unfolding phase4_def using k by (intro phase4_known) (simp add: i)
  show ?thesis
    by (simp add: tryFix_state_def p1 p2 p3 p4)
qed

text \<open>
  Claim C3, as the code has it: for every string \<open>s\<close> that the validator accepts and
  whose characters all belong to one of the four classes, \<open>fix(s)\<close> makes no edit:
  \<open>fix(s).changes\<close> is empty and \<open>fix(s).fixed\<close> is \<open>s\<close>.
\<close>

theorem fix_valid_known_unchanged:
  assumes "overall (validate s)"
    and "\<forall>c\<in>set (codePoints s). classifyChar c \<noteq> Unknown"
  shows "changes (fix_pw e s pos) = [] \<and> fixed (fix_pw e s pos) = s"
proof -
  have "tryFix e s pos = (\<lparr>original = s, fixed = s, changes = [], valid = True\<rparr>, pos)"
    using assms
    by (simp add: tryFix_def tryFix_state_valid_known concat_codePoints tryFix_init_def)
  then show ?thesis
    by (simp add: fix_pw_def fix_run_def fixLoop_step)
qed

theorem fix_valid_known_unchanged_witness:
  "overall (validate (js ''Abcdef1#'')) \<and>
   changes (fix_pw env_ones (js ''Abcdef1#'') 0) = [] \<and>
   fixed (fix_pw env_ones (js ''Abcdef1#'') 0) = js ''Abcdef1#''"
proof -
  have v: "overall (validate (js ''Abcdef1#''))"
    by code_simp
  have k: "\<forall>c\<in>set (codePoints (js ''Abcdef1#'')). classifyChar c \<noteq> Unknown"
    by code_simp
  show ?thesis
    using v fix_valid_known_unchanged [OF v k, of env_ones 0] by simp
qed

text \<open>
  The claim as stated covers every accepted string. The validator accepts \<open>Ab1#~xyz\<close>,
  and the last phase of the fixer replaces its unknown character \<open>~\<close>.
\<close>

theorem fix_valid_unknown_counterexample:
  "overall (validate (js ''Ab1#~xyz'')) \<and>
   fixed (fix_pw env_ones (js ''Ab1#~xyz'') 0) = js ''Ab1#Bxyz'' \<and>
   length (changes (fix_pw env_ones (js ''Ab1#~xyz'') 0)) = 1"
  by code_simp

section \<open>The empty password\<close>

text \<open>
  Claim C10 says that the changes of \<open>fix(s)\<close>, replayed on \<open>s\<close>, give the fixed
  string, each change substituting the character at its index or appending at the end. On
  the empty string the second phase finds no position, takes \<open>chars.length - 1 = -1\<close>
  and records four changes at index \<open>-1\<close>, the first of them from \<open>undefined\<close>; none
  of them shows in the fixed string, which is the eight appended characters.
\<close>

theorem fix_empty_changes:
  "map c_index (changes (fix_pw env_ones [] 0)) = [- 1, - 1, - 1, - 1, 0, 1, 2, 3, 4, 5, 6, 7] \<and>
   c_from (hd (changes (fix_pw env_ones [] 0))) = None"
  by code_simp

section \<open>The pool\<close>

lemma ascii_codePoints: "\<forall>u\<in>set s. u \<le> 0x7F \<Longrightarrow> codePoints s = map (\<lambda>u. [u]) s"
proof (induction s rule: codePoints.induct)
  case (1 u v rest)
  then have "\<not> isLead u" using lead_not_ascii by auto
  with 1 show ?case by simp
qed simp_all

lemma pool_units:
  "pool = [0x41, 0x42, 0x43, 0x44, 0x45, 0x46, 0x47, 0x48, 0x49, 0x4A, 0x4B, 0x4C, 0x4D,
           0x4E, 0x4F, 0x50, 0x51, 0x52, 0x53, 0x54, 0x55, 0x56, 0x57, 0x58, 0x59, 0x5A,
           0x61, 0x62, 0x63, 0x64, 0x65, 0x66, 0x67, 0x68, 0x69, 0x6A, 0x6B, 0x6C, 0x6D,
           0x6E, 0x6F, 0x70, 0x71, 0x72, 0x73, 0x74, 0x75, 0x76, 0x77, 0x78, 0x79, 0x7A,
           0x30, 0x31, 0x32, 0x33, 0x34, 0x35, 0x36, 0x37, 0x38, 0x39,
           0x23, 0x3F, 0x21, 0x40, 0x24, 0x25, 0x5E, 0x26, 0x2A, 0x2D]"
  by (simp add: pool_def js_def SPECIAL_CHARS_def)

lemma pool_length: "length pool = 72"
  by (simp add: pool_units)

lemma pool_ascii: "\<forall>u\<in>set pool. u \<le> 0x7F"
  by (simp add: pool_units)

lemma pool_distinct: "distinct pool"
  by (simp add: pool_units)

lemma poolChars_map: "poolChars = map (\<lambda>u. [u]) pool"
  by (simp add: poolChars_def ascii_codePoints pool_ascii)

lemma poolChars_length: "length poolChars = 72"
  by (simp add: poolChars_map pool_length)

lemma poolChars_distinct: "distinct poolChars"
  by (simp add: poolChars_map distinct_map pool_distinct inj_on_def)

lemma pool_classes:
  "set pool = set (the (CHAR_CLASSES Uppercase)) \<union> set (the (CHAR_CLASSES Lowercase)) \<union>
     set (the (CHAR_CLASSES Digit)) \<union> set (the (CHAR_CLASSES Special))"
  by (simp add: pool_def Un_assoc)

lemma upper_range: "u \<in> set (the (CHAR_CLASSES Uppercase)) \<Longrightarrow> 0x41 \<le> u \<and> u \<le> 0x5A"
  by (auto simp: js_def)

lemma lower_range: "u \<in> set (the (CHAR_CLASSES Lowercase)) \<Longrightarrow> 0x61 \<le> u \<and> u \<le> 0x7A"
  by (auto simp: js_def)

lemma digit_range: "u \<in> set (the (CHAR_CLASSES Digit)) \<Longrightarrow> 0x30 \<le> u \<and> u \<le> 0x39"
  by (auto simp: js_def)

section \<open>Counting against the pool\<close>

lemma sum_list_indicator:
  "distinct ps \<Longrightarrow> sum_list (map (\<lambda>c. if x = c then 1 else 0) ps) = (if x \<in> set ps then 1 else (0::nat))"
  by (induction ps) auto

lemma length_split_pool:
  "distinct ps \<Longrightarrow>
   length xs = sum_list (map (count_list xs) ps) + length (filter (\<lambda>x. x \<notin> set ps) xs)"
proof (induction xs)
  case Nil
  then show ?case by simp
next
  case (Cons x xs)
  have e: "map (count_list (x # xs)) ps = map (\<lambda>c. count_list xs c + (if x = c then 1 else 0)) ps"
    by simp
  have "sum_list (map (count_list (x # xs)) ps) =
      sum_list (map (\<lambda>c. count_list xs c + (if x = c then 1 else 0)) ps)"
    by (simp only: e)
  also have "\<dots> = sum_list (map (count_list xs) ps) + sum_list (map (\<lambda>c. if x = c then 1 else 0) ps)"
    by (rule sum_list_addf)
  also have "\<dots> = sum_list (map (count_list xs) ps) + (if x \<in> set ps then 1 else 0)"
    by (simp only: sum_list_indicator [OF Cons.prems])
  finally have f: "sum_list (map (count_list (x # xs)) ps) =
      sum_list (map (count_list xs) ps) + (if x \<in> set ps then 1 else 0)" .
  show ?case
    unfolding f using Cons.IH [OF Cons.prems] by simp
qed

lemma sum_list_lower: "\<forall>c\<in>set ps. k \<le> f c \<Longrightarrow> k * length ps \<le> sum_list (map f ps)"
  by (induction ps) (auto simp: add_mono)

lemma sum_list_lower_strict:
  "\<forall>c\<in>set ps. k \<le> f c \<Longrightarrow> p \<in> set ps \<Longrightarrow> k < f p \<Longrightarrow>
   k * length ps < sum_list (map f ps)"
proof (induction ps)
  case Nil
  then show ?case by simp
next
  case (Cons a ps)
  have l: "k * length ps \<le> sum_list (map f ps)"
    using Cons.prems(1) by (intro sum_list_lower) simp
  show ?case
  proof (cases "p = a")
    case True
    then show ?thesis using l Cons.prems(3) by simp
  next
    case False
    then have "k * length ps < sum_list (map f ps)"
      using Cons by simp
    moreover have "k \<le> f a" using Cons.prems(1) by simp
    ultimately show ?thesis by simp
  qed
qed

lemma pool_exhausted_length:
  assumes "\<forall>c\<in>set poolChars. 2 \<le> count_list xs c"
  shows "144 \<le> length xs"
proof -
  have "2 * length poolChars \<le> sum_list (map (count_list xs) poolChars)"
    using assms by (rule sum_list_lower)
  then show ?thesis
    using length_split_pool [OF poolChars_distinct, of xs] by (simp add: poolChars_length)
qed


section \<open>One attempt of the generator\<close>

lemma randomChar_result:
  assumes "pl \<noteq> []"
  shows "\<exists>u\<in>set pl. randomChar e pl pos = ([u], Suc pos)"
proof -
  have "unat (getRandomValues e pos) mod length pl < length pl"
    using assms by simp
  then show ?thesis
    by (simp add: randomChar_def secureRandomInt_def)
qed

lemma fst_addChar: "fst (addChar ch st) = fst st @ [ch]"
  by (simp add: addChar_def split_def)

lemma snd_addChar: "snd (addChar ch st) = incCount ch (snd st)"
  by (simp add: addChar_def split_def)

lemma ginv_addChar:
  assumes "ginv st" and "ch \<in> set poolChars" and "getOr 0 (snd st) (Some ch) < 2"
  shows "ginv (addChar ch st)"
  using assms unfolding ginv_def
  by (auto simp: fst_addChar snd_addChar getOr0_incCount)

lemma added_ok_ginv: "ginv st \<Longrightarrow> added_ok st st' \<Longrightarrow> ginv st'"
  unfolding added_ok_def using ginv_addChar by blast

lemma added_ok_chars: "added_ok st st' \<Longrightarrow> \<exists>ch. fst st' = fst st @ [ch]"
  unfolding added_ok_def using fst_addChar by blast

lemma drawLoop_result:
  "case drawLoop e tries st pos of
     (st', added, pos') \<Rightarrow>
       (if added then added_ok st st' else st' = st) \<and> pos \<le> pos' \<and> pos' \<le> pos + (100 - tries)"
proof (induction e tries st pos rule: drawLoop.induct)
  case (1 e tries st pos)
  show ?case
  proof (cases "tries < 100")
    case False
    then show ?thesis by (subst drawLoop.simps) simp
  next
    case True
    have "pool \<noteq> []" using pool_length by auto
    then obtain u where u: "u \<in> set pool" "randomChar e pool pos = ([u], Suc pos)"
      using randomChar_result by blast
    have m: "[u] \<in> set poolChars" using u(1) by (simp add: poolChars_map)
    show ?thesis
    proof (cases "getOr 0 (snd st) (Some [u]) < 2")
      case avail: True
      have "added_ok st (addChar [u] st)"
        unfolding added_ok_def using m avail by blast
      then show ?thesis
        using True avail u(2) by (subst drawLoop.simps) simp
    next
      case full: False
      have "case drawLoop e (tries + 1) st (Suc pos) of
         (st', added, pos') \<Rightarrow>
           (if added then added_ok st st' else st' = st) \<and> Suc pos \<le> pos' \<and>
           pos' \<le> Suc pos + (100 - (tries + 1))"
        using "1.IH" [OF True u(2) [symmetric] refl full] .
      then show ?thesis
        using True full u(2) by (subst drawLoop.simps) (auto simp: split_def)
    qed
  qed
qed

lemma pool_available:
  assumes "ginv st" and "length (fst st) < 144"
  shows "\<exists>ch\<in>set poolChars. getOr 0 (snd st) (Some ch) < 2"
proof (rule ccontr)
  assume "\<not> ?thesis"
  then have "\<forall>c\<in>set poolChars. 2 \<le> count_list (fst st) c"
    using assms(1) by (auto simp: ginv_def not_less)
  then have "144 \<le> length (fst st)" by (rule pool_exhausted_length)
  with assms(2) show False by simp
qed

lemma scanPool_result:
  assumes "ginv st" and "length (fst st) < 144"
  shows "added_ok st (scanPool st)"
proof -
  obtain ch where "find (\<lambda>ch. getOr 0 (snd st) (Some ch) < 2) (codePoints pool) = Some ch"
    using pool_available [OF assms] by (fastforce simp: find_None_iff poolChars_def)
  moreover from this have "ch \<in> set poolChars \<and> getOr 0 (snd st) (Some ch) < 2"
    by (auto simp: find_Some_iff poolChars_def)
  ultimately show ?thesis
    by (auto simp: scanPool_def added_ok_def)
qed

lemma fillSlot_result:
  assumes "ginv st" and "length (fst st) < 144"
  shows "case fillSlot e st pos of (st', pos') \<Rightarrow> added_ok st st' \<and> pos \<le> pos' \<and> pos' \<le> pos + 100"
proof -
  obtain st1 added p1 where d: "drawLoop e 0 st pos = (st1, added, p1)"
    by (cases "drawLoop e 0 st pos") auto
  have r: "(if added then added_ok st st1 else st1 = st) \<and> pos \<le> p1 \<and> p1 \<le> pos + 100"
    using drawLoop_result [where e = e and tries = 0 and st = st and pos = pos] d by simp
  show ?thesis
  proof (cases added)
    case True
    then show ?thesis using r d by (simp add: fillSlot_def)
  next
    case False
    then have "st1 = st" using r by simp
    then show ?thesis
      using False r d scanPool_result [OF assms] by (simp add: fillSlot_def)
  qed
qed

lemma fillLoop_result:
  "ginv st \<Longrightarrow> int (length (fst st)) = i \<Longrightarrow> i \<le> len \<Longrightarrow> len \<le> 144 \<Longrightarrow>
   (case fillLoop e len i st pos of
      (st', pos') \<Rightarrow>
        ginv st' \<and> int (length (fst st')) = len \<and> set (fst st) \<subseteq> set (fst st') \<and>
        pos \<le> pos' \<and> pos' \<le> pos + 100 * nat (len - i))"
proof (induction e len i st pos rule: fillLoop.induct)
  case (1 e len i st pos)
  show ?case
  proof (cases "i < len")
    case False
    then show ?thesis
      using "1.prems" by (subst fillLoop.simps) simp
  next
    case True
    obtain st1 p1 where f: "fillSlot e st pos = (st1, p1)"
      by (cases "fillSlot e st pos") auto
    have small: "length (fst st) < 144"
      using True "1.prems" by linarith
    have a: "added_ok st st1" and p: "pos \<le> p1" "p1 \<le> pos + 100"
      using fillSlot_result [OF "1.prems"(1) small, where e = e and pos = pos] f by auto
    obtain ch where ch: "fst st1 = fst st @ [ch]"
      using added_ok_chars [OF a] by blast
    have g1: "ginv st1" using added_ok_ginv [OF "1.prems"(1) a] .
    have l1: "int (length (fst st1)) = i + 1"
      using ch "1.prems"(2) by simp
    have "case fillLoop e len (i + 1) st1 p1 of
        (st', pos') \<Rightarrow>
          ginv st' \<and> int (length (fst st')) = len \<and> set (fst st1) \<subseteq> set (fst st') \<and>
          p1 \<le> pos' \<and> pos' \<le> p1 + 100 * nat (len - (i + 1))"
      using "1.IH" [OF True f [symmetric] refl g1 l1 _ "1.prems"(4)] True by simp
    moreover have "nat (len - i) = Suc (nat (len - (i + 1)))"
      using True by linarith
    then have "100 + 100 * nat (len - (i + 1)) = 100 * nat (len - i)"
      by simp
    ultimately show ?thesis
      using True f ch p by (subst fillLoop.simps) (auto simp: split_def)
  qed
qed

lemma shuffleLoop_mset:
  "i < length arr \<Longrightarrow> mset (fst (shuffleLoop e i arr pos)) = mset arr"
proof (induction i arbitrary: arr pos)
  case 0
  then show ?case by simp
next
  case (Suc i)
  let ?j = "unat (getRandomValues e pos) mod (Suc i + 1)"
  have "?j < Suc i + 1"
    by simp
  then have j: "?j < length arr"
    using Suc.prems by linarith
  have "mset (arr[Suc i := arr ! ?j, ?j := arr ! Suc i]) = mset arr"
    using mset_swap [OF j Suc.prems] .
  moreover have "i < length (arr[Suc i := arr ! ?j, ?j := arr ! Suc i])"
    using Suc.prems by simp
  ultimately show ?case
    using Suc.IH by (simp add: secureRandomInt_def)
qed

lemma shuffleLoop_pos: "snd (shuffleLoop e i arr pos) = pos + i"
  by (induction i arbitrary: arr pos) (simp_all add: secureRandomInt_def)

lemma shuffle_mset: "mset (fst (shuffle e arr pos)) = mset arr"
proof (cases "arr = []")
  case True
  then show ?thesis by (simp add: shuffle_def)
next
  case False
  then have "length arr - 1 < length arr" by (simp add: Suc_leI)
  then show ?thesis by (simp add: shuffle_def shuffleLoop_mset)
qed

lemma shuffle_pos: "snd (shuffle e arr pos) = pos + (length arr - 1)"
  by (simp add: shuffle_def shuffleLoop_pos)


lemma codePoints_cons_ascii: "\<not> isLead u \<Longrightarrow> codePoints (u # s) = [u] # codePoints s"
  by (cases s) auto

lemma codePoints_concat_pool: "set cs \<subseteq> set poolChars \<Longrightarrow> codePoints (concat cs) = cs"
proof (induction cs)
  case Nil
  then show ?case by simp
next
  case (Cons c cs)
  then obtain u where u: "c = [u]" "u \<in> set pool"
    by (auto simp: poolChars_map)
  then have "\<not> isLead u"
    using pool_ascii lead_not_ascii by blast
  then show ?case
    using Cons u by (simp add: codePoints_cons_ascii)
qed

lemma length_concat_pool: "set cs \<subseteq> set poolChars \<Longrightarrow> length (concat cs) = length cs"
  by (induction cs) (auto simp: poolChars_map)

lemma set_concat_pool: "set cs \<subseteq> set poolChars \<Longrightarrow> set (concat cs) \<subseteq> set pool"
  by (induction cs) (auto simp: poolChars_map)

lemma class_pools:
  "u \<in> set (the (CHAR_CLASSES Uppercase)) \<Longrightarrow> classifyChar [u] = Uppercase"
  "u \<in> set (the (CHAR_CLASSES Lowercase)) \<Longrightarrow> classifyChar [u] = Lowercase"
  "u \<in> set (the (CHAR_CLASSES Digit)) \<Longrightarrow> classifyChar [u] = Digit"
  "u \<in> set (the (CHAR_CLASSES Special)) \<Longrightarrow> classifyChar [u] = Special"
  using upper_range lower_range digit_range
  by (simp_all add: upper_iff lower_iff digit_iff special_iff)

lemma class_pools_nonempty:
  "the (CHAR_CLASSES Uppercase) \<noteq> []" "the (CHAR_CLASSES Lowercase) \<noteq> []"
  "the (CHAR_CLASSES Digit) \<noteq> []" "the (CHAR_CLASSES Special) \<noteq> []"
  by (simp_all add: js_def SPECIAL_CHARS_def)

lemma getOr_Nil: "getOr d [] k = d"
  by (simp add: getOr_def)

lemma generateAttempt_result:
  assumes "8 \<le> len" and "len \<le> 40"
  shows "case generateAttempt e len pos of
     (pw, pos') \<Rightarrow>
       overall (validate pw) \<and> length pw = nat len \<and> set pw \<subseteq> set pool \<and>
       pos \<le> pos' \<and> pos' \<le> pos + 4 + 100 * nat (len - 4) + (nat len - 1)"
proof -
  obtain u1 where u1: "u1 \<in> set (the (CHAR_CLASSES Uppercase))"
      "randomChar e (the (CHAR_CLASSES Uppercase)) pos = ([u1], Suc pos)"
    using randomChar_result [OF class_pools_nonempty(1)] by blast
  obtain u2 where u2: "u2 \<in> set (the (CHAR_CLASSES Lowercase))"
      "randomChar e (the (CHAR_CLASSES Lowercase)) (Suc pos) = ([u2], Suc (Suc pos))"
    using randomChar_result [OF class_pools_nonempty(2)] by blast
  obtain u3 where u3: "u3 \<in> set (the (CHAR_CLASSES Digit))"
      "randomChar e (the (CHAR_CLASSES Digit)) (Suc (Suc pos)) = ([u3], Suc (Suc (Suc pos)))"
    using randomChar_result [OF class_pools_nonempty(3)] by blast
  obtain u4 where u4: "u4 \<in> set (the (CHAR_CLASSES Special))"
      "randomChar e (the (CHAR_CLASSES Special)) (Suc (Suc (Suc pos))) =
         ([u4], Suc (Suc (Suc (Suc pos))))"
    using randomChar_result [OF class_pools_nonempty(4)] by blast
  define st4 where "st4 = addChar [u4] (addChar [u3] (addChar [u2] (addChar [u1] ([], []))))"
  have c: "classifyChar [u1] = Uppercase" "classifyChar [u2] = Lowercase"
    "classifyChar [u3] = Digit" "classifyChar [u4] = Special"
    using u1(1) u2(1) u3(1) u4(1) class_pools by blast+
  have ne: "u1 \<noteq> u2" "u1 \<noteq> u3" "u1 \<noteq> u4" "u2 \<noteq> u3" "u2 \<noteq> u4" "u3 \<noteq> u4"
    using c by auto
  have inpool: "[u1] \<in> set poolChars" "[u2] \<in> set poolChars" "[u3] \<in> set poolChars"
    "[u4] \<in> set poolChars"
    using u1(1) u2(1) u3(1) u4(1) by (auto simp: poolChars_map pool_classes)
  have chars4: "fst st4 = [[u1], [u2], [u3], [u4]]"
    by (simp add: st4_def fst_addChar)
  have g4: "ginv st4"
    unfolding ginv_def chars4
    using inpool ne by (auto simp: st4_def snd_addChar getOr0_incCount getOr_Nil)
  obtain st5 p5 where f: "fillLoop e len 4 st4 (Suc (Suc (Suc (Suc pos)))) = (st5, p5)"
    by (cases "fillLoop e len 4 st4 (Suc (Suc (Suc (Suc pos))))") auto
  have r5: "ginv st5" "int (length (fst st5)) = len" "set (fst st4) \<subseteq> set (fst st5)"
    "pos + 4 \<le> p5" "p5 \<le> pos + 4 + 100 * nat (len - 4)"
    using fillLoop_result [OF g4, where i = 4 and len = len and e = e
        and pos = "Suc (Suc (Suc (Suc pos)))"] f assms chars4
    by auto
  define chars6 where "chars6 = fst (shuffle e (fst st5) p5)"
  have m: "mset chars6 = mset (fst st5)"
    by (simp add: chars6_def shuffle_mset)
  have set6: "set chars6 = set (fst st5)"
    using m by (metis set_mset_mset)
  have len6: "length chars6 = nat len"
    using m r5(2) by (metis nat_int size_mset)
  have cnt6: "count_list chars6 c = count_list (fst st5) c" for c
    using m by (metis count_mset)
  have sub6: "set chars6 \<subseteq> set poolChars"
    using r5(1) set6 by (simp add: ginv_def)
  have ga: "generateAttempt e len pos = (concat chars6, p5 + (nat len - 1))"
    using u1(2) u2(2) u3(2) u4(2) f r5(2) chars4
    by (simp add: generateAttempt_def st4_def [symmetric] chars6_def split_def shuffle_pos)
  have cp: "codePoints (concat chars6) = chars6"
    using sub6 by (rule codePoints_concat_pool)
  have seeds: "[u1] \<in> set chars6" "[u2] \<in> set chars6" "[u3] \<in> set chars6" "[u4] \<in> set chars6"
    using r5(3) set6 chars4 by auto
  have "overall (validate (concat chars6))"
    unfolding validate_overall_chars cp
    using seeds c len6 assms(1) r5(1) cnt6 length_concat_pool [OF sub6]
    by (auto simp: ginv_def)
  then show ?thesis
    using ga len6 length_concat_pool [OF sub6] set_concat_pool [OF sub6] r5(4,5)
    by simp
qed


section \<open>The generator\<close>

lemma clamp_range: "8 \<le> max 8 (min 40 n) \<and> max 8 (min 40 n) \<le> (40::int)"
  by simp

lemma generate_run_result:
  "generate_run e n pos =
     (\<lparr>password = fst (generateAttempt e (max 8 (min 40 n)) pos), gvalid = True\<rparr>, 1,
      snd (generateAttempt e (max 8 (min 40 n)) pos))"
proof -
  have "overall (validate (fst (generateAttempt e (max 8 (min 40 n)) pos)))"
    using generateAttempt_result [where len = "max 8 (min 40 n)" and e = e and pos = pos] clamp_range [of n]
    by (simp add: split_def)
  then show ?thesis
    by (simp add: generate_run_def generateLoop.simps [of e _ 0] split_def Let_def)
qed

lemma fillSlot_pos: "snd (fillSlot e st pos) \<le> pos + 100"
  using drawLoop_result [where e = e and tries = 0 and st = st and pos = pos]
  by (auto simp: fillSlot_def split_def Let_def)

text \<open>
  Claim C7: for every integer \<open>n\<close>, \<open>generate(n)\<close> returns a password whose length is
  \<open>n\<close> clamped into 8..40, with \<open>valid == true\<close>.
\<close>

theorem generate_length_valid:
  "length (password (generate e n pos)) = nat (max 8 (min 40 n)) \<and> gvalid (generate e n pos)"
  using generateAttempt_result [where len = "max 8 (min 40 n)" and e = e and pos = pos] clamp_range [of n]
  by (simp add: generate_def generate_run_result split_def)

text \<open>
  Claim C8: \<open>generate\<close> runs at most 10 attempts; filling one slot draws at most 100
  random values (the fallback scan draws none), so an attempt for a length of at most 40
  draws at most \<open>4 + 36 * 100 + 39\<close> values and the whole call at most ten times as many.
  The result is a valid password or the explicit result \<open>{ password: '', valid: false }\<close>,
  which is what the loop leaves behind once the attempt counter has reached 10.
\<close>

theorem generate_bounded:
  "fst (snd (generate_run e n pos)) \<le> 10 \<and>
   snd (snd (generate_run e n pos)) \<le> pos + 10 * (4 + 36 * 100 + 39) \<and>
   snd (fillSlot e st pos) \<le> pos + 100 \<and>
   (gvalid (generate e n pos) \<or> generate e n pos = \<lparr>password = [], gvalid = False\<rparr>) \<and>
   generateLoop e len 10 pos = (\<lparr>password = [], gvalid = False\<rparr>, 10, pos)"
proof -
  let ?L = "max 8 (min 40 n)"
  have "snd (generateAttempt e ?L pos) \<le> pos + 4 + 100 * nat (?L - 4) + (nat ?L - 1)"
    using generateAttempt_result [where len = ?L and e = e and pos = pos] clamp_range [of n] by (simp add: split_def)
  moreover have "100 * nat (?L - 4) \<le> 3600" "nat ?L - 1 \<le> 39"
    by auto
  ultimately have "snd (generateAttempt e ?L pos) \<le> pos + 10 * (4 + 36 * 100 + 39)"
    by simp
  then show ?thesis
    by (simp add: generate_def generate_run_result fillSlot_pos generateLoop.simps [of e len 10])
qed

section \<open>Known characters and the pool\<close>

lemma word_range_enum:
  fixes u :: "16 word"
  assumes "lo \<le> u" and "u \<le> hi"
  shows "u \<in> set (map of_nat [unat lo ..< Suc (unat hi)])"
proof -
  have "unat lo \<le> unat u" "unat u \<le> unat hi"
    using assms by (simp_all add: word_le_nat_alt)
  then have "unat u \<in> set [unat lo ..< Suc (unat hi)]" by (auto simp: less_Suc_eq_le)
  then have "of_nat (unat u) \<in> set (map of_nat [unat lo ..< Suc (unat hi)] :: 16 word list)"
    by (simp only: set_map) (rule imageI)
  then show ?thesis by simp
qed


lemma known_single_in_pool:
  assumes "classifyChar [u] \<noteq> Unknown"
  shows "u \<in> set pool"
proof -
  have up: "u \<in> set (the (CHAR_CLASSES Uppercase))" if "0x41 \<le> u" "u \<le> 0x5A"
    using word_range_enum [OF that] by (simp add: js_def upt_rec)
  have lo: "u \<in> set (the (CHAR_CLASSES Lowercase))" if "0x61 \<le> u" "u \<le> 0x7A"
    using word_range_enum [OF that] by (simp add: js_def upt_rec)
  have di: "u \<in> set (the (CHAR_CLASSES Digit))" if "0x30 \<le> u" "u \<le> 0x39"
    using word_range_enum [OF that] by (simp add: js_def upt_rec)
  show ?thesis
    using assms up lo di unfolding pool_classes
    by (auto simp: classifyChar_single split: if_splits)
qed

lemma known_codePoint_in_pool:
  "isCodePoint c \<Longrightarrow> classifyChar c \<noteq> Unknown \<Longrightarrow> c \<in> set poolChars"
  using known_is_single known_single_in_pool by (fastforce simp: poolChars_map)

lemma poolChars_known: "c \<in> set poolChars \<Longrightarrow> classifyChar c \<noteq> Unknown"
  using class_pools by (auto simp: poolChars_map pool_classes)

lemma poolChars_isCodePoint: "c \<in> set poolChars \<Longrightarrow> isCodePoint c"
  by (auto simp: poolChars_map isCodePoint_def)

lemma poolChars_nonempty: "c \<in> set poolChars \<Longrightarrow> c \<noteq> []"
  by (auto simp: poolChars_map)


section \<open>Picking a substitute\<close>

lemma pickAvailable_cases:
  "(\<exists>c\<in>set (codePoints pl). avail counts c \<and> pickAvailable e pl counts pos = (Some c, Suc pos)) \<or>
   ((\<forall>c\<in>set (codePoints pl). \<not> avail counts c) \<and> pickAvailable e pl counts pos = (None, pos))"
proof -
  let ?cands = "filter (\<lambda>ch. getOr 0 counts (Some ch) < 2) (codePoints pl)"
  show ?thesis
  proof (cases "?cands = []")
    case True
    then have "\<forall>c\<in>set (codePoints pl). \<not> avail counts c"
      by (simp add: filter_empty_conv avail_def)
    then show ?thesis
      using True by (simp add: pickAvailable_def)
  next
    case False
    let ?i = "unat (getRandomValues e pos) mod length ?cands"
    have "?i < length ?cands" using False by simp
    then have "?cands ! ?i \<in> set ?cands" by (rule nth_mem)
    then have "?cands ! ?i \<in> set (codePoints pl) \<and> avail counts (?cands ! ?i)"
      by (simp add: avail_def)
    moreover have "pickAvailable e pl counts pos = (Some (?cands ! ?i), Suc pos)"
      using False by (simp add: pickAvailable_def secureRandomInt_def Let_def)
    ultimately show ?thesis by blast
  qed
qed

lemma class_pool_codePoints:
  "cls \<noteq> Unknown \<Longrightarrow> codePoints (the (CHAR_CLASSES cls)) = map (\<lambda>u. [u]) (the (CHAR_CLASSES cls))"
proof -
  assume "cls \<noteq> Unknown"
  then have "set (the (CHAR_CLASSES cls)) \<subseteq> set pool"
    unfolding pool_classes by (cases cls) auto
  then show ?thesis
    using pool_ascii by (intro ascii_codePoints) blast
qed

lemma allPools_class:
  "allPools I0 = the (CHAR_CLASSES Uppercase)" "allPools I1 = the (CHAR_CLASSES Lowercase)"
  "allPools I2 = the (CHAR_CLASSES Digit)" "allPools I3 = the (CHAR_CLASSES Special)"
  by simp_all

lemma allPools_sub: "c \<in> set (codePoints (allPools i)) \<Longrightarrow> c \<in> set poolChars"
  by (cases i) (auto simp: class_pool_codePoints poolChars_map pool_classes simp del: CHAR_CLASSES.simps)

lemma allPools_cover: "c \<in> set poolChars \<Longrightarrow> \<exists>i. c \<in> set (codePoints (allPools i))"
proof -
  assume "c \<in> set poolChars"
  then obtain u where u: "c = [u]" "u \<in> set pool"
    by (auto simp: poolChars_map)
  then consider "u \<in> set (allPools I0)" | "u \<in> set (allPools I1)" | "u \<in> set (allPools I2)"
    | "u \<in> set (allPools I3)"
    unfolding pool_classes by auto
  then show ?thesis
  proof cases
    case 1
    then have "c \<in> set (codePoints (allPools I0))"
      using u(1) by (simp add: class_pool_codePoints del: CHAR_CLASSES.simps)
    then show ?thesis by blast
  next
    case 2
    then have "c \<in> set (codePoints (allPools I1))"
      using u(1) by (simp add: class_pool_codePoints del: CHAR_CLASSES.simps)
    then show ?thesis by blast
  next
    case 3
    then have "c \<in> set (codePoints (allPools I2))"
      using u(1) by (simp add: class_pool_codePoints del: CHAR_CLASSES.simps)
    then show ?thesis by blast
  next
    case 4
    then have "c \<in> set (codePoints (allPools I3))"
      using u(1) by (simp add: class_pool_codePoints del: CHAR_CLASSES.simps)
    then show ?thesis by blast
  qed
qed

lemma pickInOrder_sound:
  "pickInOrder e order counts pos = (Some c, pos') \<Longrightarrow>
   c \<in> set poolChars \<and> avail counts c"
proof (induction order arbitrary: pos)
  case Nil
  then show ?case by simp
next
  case (Cons i order)
  from pickAvailable_cases [of "allPools i" counts e pos]
  show ?case
  proof
    assume "\<exists>c\<in>set (codePoints (allPools i)). avail counts c \<and>
        pickAvailable e (allPools i) counts pos = (Some c, Suc pos)"
    then obtain d where d: "d \<in> set (codePoints (allPools i))" "avail counts d"
        "pickAvailable e (allPools i) counts pos = (Some d, Suc pos)"
      by blast
    have "d \<in> set poolChars" using d(1) by (rule allPools_sub)
    moreover from this have "d \<noteq> []" by (rule poolChars_nonempty)
    ultimately show ?thesis
      using Cons.prems d by simp
  next
    assume "(\<forall>c\<in>set (codePoints (allPools i)). \<not> avail counts c) \<and>
        pickAvailable e (allPools i) counts pos = (None, pos)"
    then show ?thesis
      using Cons by simp
  qed
qed

lemma pickInOrder_none:
  "\<forall>c\<in>set poolChars. \<not> avail counts c \<Longrightarrow> pickInOrder e order counts pos = (None, pos)"
proof (induction order)
  case Nil
  then show ?case by simp
next
  case (Cons i order)
  have "\<forall>c\<in>set (codePoints (allPools i)). \<not> avail counts c"
    using Cons.prems allPools_sub by blast
  then have "pickAvailable e (allPools i) counts pos = (None, pos)"
    using pickAvailable_cases [of "allPools i" counts e pos] by blast
  then show ?case
    using Cons by simp
qed

lemma pickInOrder_complete:
  "i \<in> set order \<Longrightarrow> c \<in> set (codePoints (allPools i)) \<Longrightarrow> avail counts c \<Longrightarrow>
   \<exists>r pos'. pickInOrder e order counts pos = (Some r, pos')"
proof (induction order arbitrary: pos)
  case Nil
  then show ?case by simp
next
  case (Cons j order)
  from pickAvailable_cases [of "allPools j" counts e pos]
  show ?case
  proof
    assume "\<exists>c\<in>set (codePoints (allPools j)). avail counts c \<and>
        pickAvailable e (allPools j) counts pos = (Some c, Suc pos)"
    then obtain d where d: "d \<in> set (codePoints (allPools j))"
        "pickAvailable e (allPools j) counts pos = (Some d, Suc pos)"
      by blast
    have "d \<noteq> []" using d(1) allPools_sub poolChars_nonempty by blast
    then show ?thesis
      using d(2) by simp
  next
    assume n: "(\<forall>c\<in>set (codePoints (allPools j)). \<not> avail counts c) \<and>
        pickAvailable e (allPools j) counts pos = (None, pos)"
    then have "i \<noteq> j" using Cons.prems by blast
    then have "i \<in> set order" using Cons.prems by simp
    then show ?thesis
      using Cons.IH [OF _ Cons.prems(2,3)] n by simp
  qed
qed

lemma pickAnyAvailable_sound:
  "pickAnyAvailable e counts pos = (Some c, pos') \<Longrightarrow> c \<in> set poolChars \<and> avail counts c"
  using pickInOrder_sound by (auto simp: pickAnyAvailable_def split_def Let_def)

lemma pickAnyAvailable_none:
  "\<forall>c\<in>set poolChars. \<not> avail counts c \<Longrightarrow> fst (pickAnyAvailable e counts pos) = None"
  by (simp add: pickAnyAvailable_def split_def Let_def pickInOrder_none)

lemma sortedOrder_all: "sort_permutes e \<Longrightarrow> i \<in> set (fst (sortedOrder e pos))"
  by (cases i) (simp_all add: sort_permutes_def sortedOrder_def split_def Let_def)

lemma pickAnyAvailable_complete:
  assumes "sort_permutes e" and "c \<in> set poolChars" and "avail counts c"
  shows "\<exists>r pos'. pickAnyAvailable e counts pos = (Some r, pos')"
proof -
  obtain i where "c \<in> set (codePoints (allPools i))"
    using allPools_cover [OF assms(2)] by blast
  then show ?thesis
    using pickInOrder_complete [OF sortedOrder_all [OF assms(1)] _ assms(3)]
    by (simp add: pickAnyAvailable_def split_def Let_def)
qed

lemma getPool_class: "cls \<noteq> Unknown \<Longrightarrow> getPool cls = the (CHAR_CLASSES cls)"
  by (cases cls) (simp_all add: getPool_def)

lemma getPool_Unknown: "getPool Unknown = []"
  by (simp add: getPool_def)

lemma getPool_nonempty: "cls \<noteq> Unknown \<Longrightarrow> getPool cls \<noteq> []"
  using class_pools_nonempty by (cases cls) (simp_all add: getPool_def)

lemma getPool_sub: "c \<in> set (codePoints (getPool cls)) \<Longrightarrow> c \<in> set poolChars"
proof (cases cls)
  case Uppercase
  then show "c \<in> set (codePoints (getPool cls)) \<Longrightarrow> c \<in> set poolChars"
    using allPools_sub [of c I0] by (simp add: getPool_def)
next
  case Lowercase
  then show "c \<in> set (codePoints (getPool cls)) \<Longrightarrow> c \<in> set poolChars"
    using allPools_sub [of c I1] by (simp add: getPool_def)
next
  case Digit
  then show "c \<in> set (codePoints (getPool cls)) \<Longrightarrow> c \<in> set poolChars"
    using allPools_sub [of c I2] by (simp add: getPool_def)
next
  case Special
  then show "c \<in> set (codePoints (getPool cls)) \<Longrightarrow> c \<in> set poolChars"
    using allPools_sub [of c I3] by (simp add: getPool_def)
next
  case Unknown
  then show "c \<in> set (codePoints (getPool cls)) \<Longrightarrow> c \<in> set poolChars"
    by (simp add: getPool_def)
qed

lemma getPool_classify: "c \<in> set (codePoints (getPool cls)) \<Longrightarrow> classifyChar c = cls"
proof (cases "cls = Unknown")
  case True
  then show "c \<in> set (codePoints (getPool cls)) \<Longrightarrow> classifyChar c = cls"
    by (simp add: getPool_Unknown)
next
  case False
  assume "c \<in> set (codePoints (getPool cls))"
  then obtain u where "c = [u]" "u \<in> set (the (CHAR_CLASSES cls))"
    using False by (auto simp: getPool_class class_pool_codePoints)
  then show "classifyChar c = cls"
    using class_pools False by (cases cls) auto
qed

lemma pickReplacement_sound:
  assumes "pickReplacement e ch counts pos = (Some r, pos')"
  shows "r \<in> set poolChars \<and> avail counts r"
proof -
  let ?cls = "classifyKey ch"
  let ?pl = "if ?cls \<noteq> Unknown then getPool ?cls else []"
  from pickAvailable_cases [of ?pl counts e pos]
  show ?thesis
  proof
    assume "\<exists>c\<in>set (codePoints ?pl). avail counts c \<and>
        pickAvailable e ?pl counts pos = (Some c, Suc pos)"
    then obtain c where c: "c \<in> set (codePoints ?pl)" "avail counts c"
        "pickAvailable e ?pl counts pos = (Some c, Suc pos)"
      by blast
    have k: "?cls \<noteq> Unknown" using c(1) by (auto split: if_splits)
    have p: "c \<in> set poolChars" using c(1) k getPool_sub by auto
    then have "c \<noteq> []" by (rule poolChars_nonempty)
    then have "pickReplacement e ch counts pos = (Some c, Suc pos)"
      using c(3) k getPool_nonempty [OF k] by (simp add: pickReplacement_def)
    then show ?thesis using assms p c(2) by simp
  next
    assume "(\<forall>c\<in>set (codePoints ?pl). \<not> avail counts c) \<and>
        pickAvailable e ?pl counts pos = (None, pos)"
    then have "pickReplacement e ch counts pos = pickAnyAvailable e counts pos"
      by (auto simp: pickReplacement_def Let_def)
    then have "pickAnyAvailable e counts pos = (Some r, pos')"
      using assms by simp
    then show ?thesis by (rule pickAnyAvailable_sound)
  qed
qed

lemma pickReplacement_same_class:
  assumes "c \<in> set (codePoints (getPool (classifyKey ch)))" and "avail counts c"
  shows "\<exists>r\<in>set (codePoints (getPool (classifyKey ch))).
           pickReplacement e ch counts pos = (Some r, Suc pos)"
proof -
  let ?cls = "classifyKey ch"
  have k: "?cls \<noteq> Unknown" using assms(1) by (auto simp: getPool_Unknown)
  obtain r where r: "r \<in> set (codePoints (getPool ?cls))"
      "pickAvailable e (getPool ?cls) counts pos = (Some r, Suc pos)"
    using pickAvailable_cases [of "getPool ?cls" counts e pos] assms by blast
  have "r \<noteq> []" using r(1) getPool_sub poolChars_nonempty by blast
  then have "pickReplacement e ch counts pos = (Some r, Suc pos)"
    using r(2) k getPool_nonempty [OF k] by (simp add: pickReplacement_def)
  then show ?thesis using r(1) by blast
qed

lemma pickReplacement_complete:
  assumes "sort_permutes e" and "c \<in> set poolChars" and "avail counts c"
  shows "\<exists>r pos'. pickReplacement e ch counts pos = (Some r, pos')"
proof -
  let ?cls = "classifyKey ch"
  let ?pl = "if ?cls \<noteq> Unknown then getPool ?cls else []"
  from pickAvailable_cases [of ?pl counts e pos]
  show ?thesis
  proof
    assume "\<exists>c\<in>set (codePoints ?pl). avail counts c \<and>
        pickAvailable e ?pl counts pos = (Some c, Suc pos)"
    then obtain d where d: "d \<in> set (codePoints ?pl)" "avail counts d"
      by blast
    then have "d \<in> set (codePoints (getPool ?cls))" by (auto split: if_splits)
    then show ?thesis
      using pickReplacement_same_class [OF _ d(2)] by blast
  next
    assume "(\<forall>c\<in>set (codePoints ?pl). \<not> avail counts c) \<and>
        pickAvailable e ?pl counts pos = (None, pos)"
    then have "pickReplacement e ch counts pos = pickAnyAvailable e counts pos"
      by (auto simp: pickReplacement_def Let_def)
    then show ?thesis
      using pickAnyAvailable_complete [OF assms] by simp
  qed
qed

lemma pickReplacement_none:
  assumes "\<forall>c\<in>set poolChars. \<not> avail counts c"
  shows "fst (pickReplacement e ch counts pos) = None"
proof -
  let ?cls = "classifyKey ch"
  let ?pl = "if ?cls \<noteq> Unknown then getPool ?cls else []"
  have "\<forall>c\<in>set (codePoints ?pl). \<not> avail counts c"
    using assms getPool_sub by auto
  then have "pickAvailable e ?pl counts pos = (None, pos)"
    using pickAvailable_cases [of ?pl counts e pos] by blast
  then have "pickReplacement e ch counts pos = pickAnyAvailable e counts pos"
    by (auto simp: pickReplacement_def Let_def)
  then show ?thesis
    using pickAnyAvailable_none [OF assms] by simp
qed

section \<open>Counts in lock-step\<close>

lemma available_exists:
  assumes m: "\<forall>c. getOr 0 m (Some c) = count_list xs c"
    and len: "length xs \<le> 144"
    and extra: "(\<exists>x\<in>set xs. x \<notin> set poolChars) \<or> (\<exists>c. 2 < count_list xs c)"
  shows "\<exists>c\<in>set poolChars. avail m c"
proof (rule ccontr)
  assume "\<not> ?thesis"
  then have full: "\<forall>c\<in>set poolChars. 2 \<le> count_list xs c"
    using m by (auto simp: avail_def not_less)
  have split: "length xs = sum_list (map (count_list xs) poolChars) +
      length (filter (\<lambda>x. x \<notin> set poolChars) xs)"
    using poolChars_distinct by (rule length_split_pool)
  have low: "144 \<le> sum_list (map (count_list xs) poolChars)"
    using sum_list_lower [OF full] by (simp add: poolChars_length)
  from extra show False
  proof
    assume "\<exists>x\<in>set xs. x \<notin> set poolChars"
    then have "filter (\<lambda>x. x \<notin> set poolChars) xs \<noteq> []"
      by (simp add: filter_empty_conv)
    then have "0 < length (filter (\<lambda>x. x \<notin> set poolChars) xs)" by simp
    then show False using split low len by linarith
  next
    assume "\<exists>c. 2 < count_list xs c"
    then obtain c where c: "2 < count_list xs c" by blast
    show False
    proof (cases "c \<in> set poolChars")
      case True
      have "2 * length poolChars < sum_list (map (count_list xs) poolChars)"
        using sum_list_lower_strict [OF full True c] .
      then show False using split len by (simp add: poolChars_length)
    next
      case False
      have "count_list xs c = length (filter ((=) c) xs)"
        by (rule count_list_eq_length_filter)
      also have "\<dots> \<le> length (filter (\<lambda>x. x \<notin> set poolChars) xs)"
      proof -
        have "filter ((=) c) xs = filter ((=) c) (filter (\<lambda>x. x \<notin> set poolChars) xs)"
          using False by (auto intro: filter_cong)
        then show ?thesis using length_filter_le [of "(=) c" "filter (\<lambda>x. x \<notin> set poolChars) xs"] by simp
      qed
      finally show False using c split low len by linarith
    qed
  qed
qed

lemma getOr1_minus: "getOr (Suc 0) m k - Suc 0 = getOr 0 m k - Suc 0"
  by (simp add: getOr_def split: option.split)

lemma getOr0_moveCount:
  "getOr 0 (moveCount old r m) (Some c) =
     (if c = r then (if old = Some r then getOr 0 m old - 1 else getOr 0 m (Some r)) + 1
      else if old = Some c then getOr 0 m old - 1
      else getOr 0 m (Some c))"
  by (simp add: moveCount_def Let_def getOr0_incCount getOr0_update getOr1_minus)

lemma count_list_update:
  "idx < length xs \<Longrightarrow>
   count_list (xs[idx := r]) c + (if xs ! idx = c then 1 else 0) =
   count_list xs c + (if r = c then 1 else 0)"
proof (induction xs arbitrary: idx)
  case Nil
  then show ?case by simp
next
  case (Cons x xs)
  show ?case
  proof (cases idx)
    case 0
    then show ?thesis by simp
  next
    case (Suc j)
    then have "j < length xs" using Cons.prems by simp
    then show ?thesis
      using Cons.IH [of j] Suc by (auto split: if_splits)
  qed
qed

lemma count_list_nth_pos: "idx < length xs \<Longrightarrow> 0 < count_list xs (xs ! idx)"
  by (simp add: count_list_0_iff zero_less_iff_neq_zero)

section \<open>The occurrences of a character, from the right\<close>

lemma occurrences_snoc:
  "occurrences (ys @ [y]) c = (if y = c then [length ys] else []) @ occurrences ys c"
proof -
  have "filter (\<lambda>i. (ys @ [y]) ! i = c) (rev [0..<length ys]) =
        filter (\<lambda>i. ys ! i = c) (rev [0..<length ys])"
    by (rule filter_cong) (auto simp: nth_append)
  then show ?thesis
    by (auto simp: occurrences_def)
qed

lemma occurrences_Nil: "occurrences [] c = []"
  by (simp add: occurrences_def)

lemma occurrences_length: "length (occurrences xs c) = count_list xs c"
  by (induction xs rule: rev_induct) (simp_all add: occurrences_Nil occurrences_snoc)

lemma occurrences_distinct: "distinct (occurrences xs c)"
  by (simp add: occurrences_def)

lemma occurrences_set: "i \<in> set (occurrences xs c) \<Longrightarrow> i < length xs \<and> xs ! i = c"
  by (simp add: occurrences_def)

lemma take_occurrences:
  "(i \<in> set (take k (occurrences xs c))) =
   (i < length xs \<and> xs ! i = c \<and> count_list (drop (Suc i) xs) c < k)"
proof (induction xs arbitrary: k rule: rev_induct)
  case Nil
  then show ?case by (simp add: occurrences_Nil)
next
  case (snoc y ys)
  show ?case
  proof (cases "y = c")
    case False
    have "i \<in> set (take k (occurrences ys c)) \<Longrightarrow> i < length ys"
      using occurrences_set in_set_takeD by fastforce
    then show ?thesis
      using False snoc [of k]
      by (auto simp: occurrences_snoc nth_append less_Suc_eq)
  next
    case True
    show ?thesis
    proof (cases k)
      case 0
      then show ?thesis by simp
    next
      case (Suc k')
      have "i \<in> set (take k' (occurrences ys c)) \<Longrightarrow> i < length ys"
        using occurrences_set in_set_takeD by fastforce
      then show ?thesis
        using True Suc snoc [of k']
        by (auto simp: occurrences_snoc nth_append less_Suc_eq)
    qed
  qed
qed

lemma count_drop_eq:
  "length xs = length ys \<Longrightarrow> \<forall>j<length xs. (xs ! j = d) = (ys ! j = d) \<Longrightarrow>
   count_list (drop i xs) d = count_list (drop i ys) d"
proof (induction xs ys arbitrary: i rule: list_induct2)
  case Nil
  then show ?case by simp
next
  case (Cons x xs y ys)
  have tl: "\<forall>j<length xs. (xs ! j = d) = (ys ! j = d)"
    using Cons.prems by (metis Suc_less_eq length_Cons nth_Cons_Suc)
  have hd: "(x = d) = (y = d)"
    using Cons.prems by (metis length_Cons nth_Cons_0 zero_less_Suc)
  show ?case
  proof (cases i)
    case 0
    then show ?thesis using Cons.IH [OF tl, of 0] hd by simp
  next
    case (Suc i')
    then show ?thesis using Cons.IH [OF tl, of i'] by simp
  qed
qed

section \<open>Steps that keep the counts in lock-step\<close>

lemma held_None: "f_minus1 st = None \<Longrightarrow> held st = f_chars st"
  by (simp add: held_def)

lemma lockstep_subst:
  assumes l: "lockstep st" and i: "idx < length (held st)"
    and h: "held st' = (held st)[idx := r]"
    and m: "f_counts st' = moveCount (Some (held st ! idx)) r (f_counts st)"
  shows "lockstep st'"
  unfolding lockstep_def
proof
  fix c
  let ?old = "held st ! idx"
  have g: "\<And>d. getOr 0 (f_counts st) (Some d) = count_list (held st) d"
    using l by (simp add: lockstep_def)
  have u: "count_list (held st') c + (if ?old = c then 1 else 0) =
      count_list (held st) c + (if r = c then 1 else 0)"
    using count_list_update [OF i] h by simp
  have p: "0 < count_list (held st) ?old"
    using i by (rule count_list_nth_pos)
  show "getOr 0 (f_counts st') (Some c) = count_list (held st') c"
    using u p by (auto simp: m getOr0_moveCount g split: if_splits)
qed

lemma lockstep_grow:
  assumes l: "lockstep st"
    and h: "\<forall>c. count_list (held st') c = count_list (held st) c + (if c = r then 1 else 0)"
    and m: "\<forall>c. getOr 0 (f_counts st') (Some c) =
      getOr 0 (f_counts st) (Some c) + (if c = r then 1 else 0)"
  shows "lockstep st'"
  using assms by (simp add: lockstep_def)

section \<open>Phase 1: one violator\<close>

lemma replaceLoop_spec:
  assumes sp: "sort_permutes e"
  shows "\<lbrakk>lockstep st; f_minus1 st = None; length (f_chars st) \<le> 144; distinct indices;
          \<forall>i\<in>set indices. i < length (f_chars st) \<and> f_chars st ! i = c;
          count_list (f_chars st) c + replaced = excess + 2;
          st' = replaceLoop e (Some c) excess indices replaced st;
          k = min (excess - replaced) (length indices)\<rbrakk> \<Longrightarrow>
     lockstep st' \<and> f_minus1 st' = None \<and> length (f_chars st') = length (f_chars st) \<and>
     (\<forall>i<length (f_chars st). i \<notin> set (take k indices) \<longrightarrow> f_chars st' ! i = f_chars st ! i) \<and>
     (\<forall>i\<in>set (take k indices). f_chars st' ! i \<in> set poolChars \<and> f_chars st' ! i \<noteq> c \<and>
        count_list (f_chars st') (f_chars st' ! i) \<le> 2) \<and>
     count_list (f_chars st') c + k = count_list (f_chars st) c \<and>
     (\<forall>d. d \<noteq> c \<longrightarrow> count_list (f_chars st) d \<le> count_list (f_chars st') d \<and>
          (count_list (f_chars st') d = count_list (f_chars st) d \<or>
           count_list (f_chars st') d \<le> 2)) \<and>
     ((\<exists>d\<in>set (codePoints (getPool (classifyChar c))). count_list (f_chars st') d < 2) \<longrightarrow>
        (\<forall>i\<in>set (take k indices). classifyChar (f_chars st' ! i) = classifyChar c))"
proof (induction indices arbitrary: replaced st st' k)
  case Nil
  then show ?case by simp
next
  case (Cons idx rest)
  show ?case
  proof (cases "replaced \<ge> excess")
    case True
    then show ?thesis using Cons.prems by simp
  next
    case False
    let ?xs = "f_chars st"
    have hd: "held st = ?xs" using Cons.prems(2) by (rule held_None)
    have g: "\<And>d. getOr 0 (f_counts st) (Some d) = count_list ?xs d"
      using Cons.prems(1) hd by (simp add: lockstep_def)
    have big: "2 < count_list ?xs c"
      using False Cons.prems(6) by linarith
    have "\<exists>d\<in>set poolChars. avail (f_counts st) d"
      using available_exists [of "f_counts st" ?xs] g Cons.prems(3) big by blast
    then obtain r p1 where pick: "pickReplacement e (Some c) (f_counts st) (f_pos st) = (Some r, p1)"
      using pickReplacement_complete [OF sp] by blast
    have r: "r \<in> set poolChars" "avail (f_counts st) r"
      using pickReplacement_sound [OF pick] by auto
    have rne: "r \<noteq> []" using r(1) by (rule poolChars_nonempty)
    have rlow: "count_list ?xs r < 2"
      using r(2) g by (simp add: avail_def)
    have rc: "r \<noteq> c" using rlow big by auto
    have idx: "idx < length ?xs" "?xs ! idx = c"
      using Cons.prems(5) by auto
    define st1 where "st1 = st\<lparr>f_changes := f_changes st @ [\<lparr>c_index = int idx, c_from = Some c, c_to = r\<rparr>],
                         f_chars := ?xs[idx := r],
                         f_counts := moveCount (Some c) r (f_counts st),
                         f_pos := p1\<rparr>"
    have unfold: "st' = replaceLoop e (Some c) excess rest (replaced + 1) st1"
      using Cons.prems(7) False pick rne by (simp add: st1_def)
    have c1: "f_chars st1 = ?xs[idx := r]" "f_minus1 st1 = None"
      "f_counts st1 = moveCount (Some c) r (f_counts st)"
      using Cons.prems(2) by (simp_all add: st1_def)
    have hd1: "held st1 = (held st)[idx := r]"
      using c1 hd by (simp add: held_def)
    have l1: "lockstep st1"
      using lockstep_subst [OF Cons.prems(1) _ hd1] idx c1(3) hd by simp
    have cnt1: "\<And>d. count_list (f_chars st1) d + (if c = d then 1 else 0) =
        count_list ?xs d + (if r = d then 1 else 0)"
      using count_list_update [OF idx(1), of r] idx(2) c1(1) by simp
    have len1: "length (f_chars st1) = length ?xs" by (simp add: c1)
    have rest: "\<forall>i\<in>set rest. i < length (f_chars st1) \<and> f_chars st1 ! i = c"
    proof
      fix i
      assume i: "i \<in> set rest"
      then have "i \<noteq> idx" using Cons.prems(4) by auto
      then show "i < length (f_chars st1) \<and> f_chars st1 ! i = c"
        using i Cons.prems(5) by (simp add: c1)
    qed
    have cc1: "count_list (f_chars st1) c + (replaced + 1) = excess + 2"
      using cnt1 [of c] rc Cons.prems(6) by simp
    define k1 where "k1 = min (excess - (replaced + 1)) (length rest)"
    have k: "k = Suc k1"
      using Cons.prems(8) False unfolding k1_def by (simp add: min_def) linarith
    have tk: "take k (idx # rest) = idx # take k1 rest"
      by (simp add: k)
    have ih: "lockstep st' \<and> f_minus1 st' = None \<and> length (f_chars st') = length (f_chars st1) \<and>
       (\<forall>i<length (f_chars st1). i \<notin> set (take k1 rest) \<longrightarrow> f_chars st' ! i = f_chars st1 ! i) \<and>
       (\<forall>i\<in>set (take k1 rest). f_chars st' ! i \<in> set poolChars \<and> f_chars st' ! i \<noteq> c \<and>
          count_list (f_chars st') (f_chars st' ! i) \<le> 2) \<and>
       count_list (f_chars st') c + k1 = count_list (f_chars st1) c \<and>
       (\<forall>d. d \<noteq> c \<longrightarrow> count_list (f_chars st1) d \<le> count_list (f_chars st') d \<and>
            (count_list (f_chars st') d = count_list (f_chars st1) d \<or>
             count_list (f_chars st') d \<le> 2)) \<and>
       ((\<exists>d\<in>set (codePoints (getPool (classifyChar c))). count_list (f_chars st') d < 2) \<longrightarrow>
          (\<forall>i\<in>set (take k1 rest). classifyChar (f_chars st' ! i) = classifyChar c))"
      using Cons.IH [OF l1 c1(2) _ _ rest cc1 unfold k1_def] Cons.prems(3,4) len1 by simp
    have ih_d: "count_list (f_chars st1) d \<le> count_list (f_chars st') d \<and>
            (count_list (f_chars st') d = count_list (f_chars st1) d \<or>
             count_list (f_chars st') d \<le> 2)" if "d \<noteq> c" for d
      using ih that by blast
    have ih_c: "count_list (f_chars st') c + k1 = count_list (f_chars st1) c"
      using ih by blast
    have ih_u: "f_chars st' ! i = f_chars st1 ! i"
      if "i < length (f_chars st1)" "i \<notin> set (take k1 rest)" for i
      using ih that by blast
    have ih_r: "f_chars st' ! i \<in> set poolChars \<and> f_chars st' ! i \<noteq> c \<and>
          count_list (f_chars st') (f_chars st' ! i) \<le> 2" if "i \<in> set (take k1 rest)" for i
      using ih that by blast
    have notin: "idx \<notin> set (take k1 rest)"
      using Cons.prems(4) in_set_takeD by fastforce
    have at_idx: "f_chars st' ! idx = r"
      using ih_u [OF _ notin] idx(1) len1 c1(1) by simp
    have r1: "count_list (f_chars st1) r = count_list ?xs r + 1"
      using cnt1 [of r] rc by simp
    have rfin: "count_list (f_chars st') r \<le> 2"
      using ih_d [of r] rc r1 rlow by linarith
    have others: "count_list ?xs d \<le> count_list (f_chars st') d \<and>
          (count_list (f_chars st') d = count_list ?xs d \<or> count_list (f_chars st') d \<le> 2)"
      if "d \<noteq> c" for d
    proof (cases "d = r")
      case True
      then show ?thesis using rfin r1 ih_d [OF that] by auto
    next
      case False
      then have "count_list (f_chars st1) d = count_list ?xs d"
        using cnt1 [of d] that by simp
      then show ?thesis using ih_d [OF that] by simp
    qed
    have unchanged: "\<forall>i<length ?xs. i \<notin> set (take k (idx # rest)) \<longrightarrow> f_chars st' ! i = ?xs ! i"
    proof (intro allI impI)
      fix i
      assume i: "i < length ?xs" "i \<notin> set (take k (idx # rest))"
      then have "i \<noteq> idx" "i \<notin> set (take k1 rest)" by (simp_all add: tk)
      then show "f_chars st' ! i = ?xs ! i"
        using ih_u [of i] i(1) len1 by (simp add: c1(1))
    qed
    have replaced_ok: "\<forall>i\<in>set (take k (idx # rest)). f_chars st' ! i \<in> set poolChars \<and>
        f_chars st' ! i \<noteq> c \<and> count_list (f_chars st') (f_chars st' ! i) \<le> 2"
      using ih_r at_idx r(1) rc rfin by (simp add: tk)
    have cfin: "count_list (f_chars st') c + k = count_list ?xs c"
      using ih_c cnt1 [of c] rc k by simp
    have ih_k: "classifyChar (f_chars st' ! i) = classifyChar c"
      if "\<exists>d\<in>set (codePoints (getPool (classifyChar c))). count_list (f_chars st') d < 2"
        "i \<in> set (take k1 rest)" for i
      using ih that by blast
    have same_class: "\<forall>i\<in>set (take k (idx # rest)). classifyChar (f_chars st' ! i) = classifyChar c"
      if ex: "\<exists>d\<in>set (codePoints (getPool (classifyChar c))). count_list (f_chars st') d < 2"
    proof -
      obtain d where d: "d \<in> set (codePoints (getPool (classifyChar c)))"
          "count_list (f_chars st') d < 2"
        using ex by blast
      have "k \<le> excess - replaced" using Cons.prems(8) by simp
      then have "2 \<le> count_list (f_chars st') c"
        using cfin Cons.prems(6) False by linarith
      then have dc: "d \<noteq> c" using d(2) by auto
      have "count_list ?xs d < 2" using others [OF dc] d(2) by linarith
      then have "avail (f_counts st) d" using g by (simp add: avail_def)
      then obtain r' where r': "r' \<in> set (codePoints (getPool (classifyKey (Some c))))"
          "pickReplacement e (Some c) (f_counts st) (f_pos st) = (Some r', Suc (f_pos st))"
        using pickReplacement_same_class [of d "Some c" "f_counts st" e "f_pos st"] d(1)
        by auto
      have "r' = r" using r'(2) pick by simp
      then have "classifyChar r = classifyChar c"
        using getPool_classify [OF r'(1)] by simp
      then show ?thesis
        using at_idx ih_k [OF ex] by (simp add: tk)
    qed
    have "lockstep st'" "f_minus1 st' = None" "length (f_chars st') = length ?xs"
      using ih len1 by simp_all
    then show ?thesis
      using unchanged replaced_ok cfin others same_class by blast
  qed
qed

lemma fixViolator_spec:
  assumes sp: "sort_permutes e"
    and l: "lockstep st" and m: "f_minus1 st = None" and len: "length (f_chars st) \<le> 144"
    and cnt: "count_list (f_chars st) c = x + 2"
    and st': "st' = fixViolator e (Some c, x) st"
  shows "lockstep st' \<and> f_minus1 st' = None \<and> length (f_chars st') = length (f_chars st) \<and>
     (\<forall>i<length (f_chars st).
        (f_chars st ! i = c \<and> count_list (drop (Suc i) (f_chars st)) c < x \<longrightarrow>
           f_chars st' ! i \<in> set poolChars \<and> f_chars st' ! i \<noteq> c \<and>
           count_list (f_chars st') (f_chars st' ! i) \<le> 2) \<and>
        (\<not> (f_chars st ! i = c \<and> count_list (drop (Suc i) (f_chars st)) c < x) \<longrightarrow>
           f_chars st' ! i = f_chars st ! i)) \<and>
     count_list (f_chars st') c = 2 \<and>
     (\<forall>d. d \<noteq> c \<longrightarrow> count_list (f_chars st) d \<le> count_list (f_chars st') d \<and>
          (count_list (f_chars st') d = count_list (f_chars st) d \<or>
           count_list (f_chars st') d \<le> 2)) \<and>
     ((\<exists>d\<in>set (codePoints (getPool (classifyChar c))). count_list (f_chars st') d < 2) \<longrightarrow>
        (\<forall>i<length (f_chars st).
           f_chars st ! i = c \<and> count_list (drop (Suc i) (f_chars st)) c < x \<longrightarrow>
           classifyChar (f_chars st' ! i) = classifyChar c))"
proof -
  let ?xs = "f_chars st"
  let ?occ = "occurrences ?xs c"
  have run: "st' = replaceLoop e (Some c) x ?occ 0 st"
    unfolding st' by (simp add: fixViolator_def occurrences_def)
  have k: "x = min (x - 0) (length ?occ)"
    using cnt by (simp add: occurrences_length)
  have occ: "\<forall>i\<in>set ?occ. i < length ?xs \<and> ?xs ! i = c"
    by (simp add: occurrences_set)
  have cnt0: "count_list ?xs c + 0 = x + 2" using cnt by simp
  note spec = replaceLoop_spec [OF sp l m len occurrences_distinct occ cnt0 run k]
  have tk: "(i \<in> set (take x ?occ)) =
      (i < length ?xs \<and> ?xs ! i = c \<and> count_list (drop (Suc i) ?xs) c < x)" for i
    by (rule take_occurrences)
  have s1: "lockstep st'" "f_minus1 st' = None" "length (f_chars st') = length ?xs"
    using spec by simp_all
  have s2: "f_chars st' ! i = ?xs ! i" if "i < length ?xs" "i \<notin> set (take x ?occ)" for i
    using spec that by blast
  have s3: "f_chars st' ! i \<in> set poolChars \<and> f_chars st' ! i \<noteq> c \<and>
        count_list (f_chars st') (f_chars st' ! i) \<le> 2" if "i \<in> set (take x ?occ)" for i
    using spec that by blast
  have s4: "count_list (f_chars st') c + x = count_list ?xs c"
    using spec by blast
  have s5: "\<forall>d. d \<noteq> c \<longrightarrow> count_list ?xs d \<le> count_list (f_chars st') d \<and>
          (count_list (f_chars st') d = count_list ?xs d \<or> count_list (f_chars st') d \<le> 2)"
    using spec by blast
  have s6: "classifyChar (f_chars st' ! i) = classifyChar c"
    if "\<exists>d\<in>set (codePoints (getPool (classifyChar c))). count_list (f_chars st') d < 2"
      "i \<in> set (take x ?occ)" for i
    using spec that by blast
  have cls: "(\<exists>d\<in>set (codePoints (getPool (classifyChar c))). count_list (f_chars st') d < 2) \<longrightarrow>
        (\<forall>i<length ?xs. ?xs ! i = c \<and> count_list (drop (Suc i) ?xs) c < x \<longrightarrow>
           classifyChar (f_chars st' ! i) = classifyChar c)"
  proof (intro allI impI)
    fix i
    assume ex: "\<exists>d\<in>set (codePoints (getPool (classifyChar c))). count_list (f_chars st') d < 2"
      and i: "i < length ?xs" "?xs ! i = c \<and> count_list (drop (Suc i) ?xs) c < x"
    then have "i \<in> set (take x ?occ)" by (simp add: tk)
    then show "classifyChar (f_chars st' ! i) = classifyChar c"
      using s6 [OF ex] by simp
  qed
  have c2: "count_list (f_chars st') c = 2"
    using s4 cnt by linarith
  have pos: "\<forall>i<length ?xs.
        (?xs ! i = c \<and> count_list (drop (Suc i) ?xs) c < x \<longrightarrow>
           f_chars st' ! i \<in> set poolChars \<and> f_chars st' ! i \<noteq> c \<and>
           count_list (f_chars st') (f_chars st' ! i) \<le> 2) \<and>
        (\<not> (?xs ! i = c \<and> count_list (drop (Suc i) ?xs) c < x) \<longrightarrow>
           f_chars st' ! i = ?xs ! i)"
  proof (intro allI impI conjI)
    fix i
    assume "i < length ?xs" "?xs ! i = c \<and> count_list (drop (Suc i) ?xs) c < x"
    then have i: "i \<in> set (take x ?occ)" by (simp add: tk)
    show "f_chars st' ! i \<in> set poolChars" "f_chars st' ! i \<noteq> c"
      "count_list (f_chars st') (f_chars st' ! i) \<le> 2"
      using s3 [OF i] by blast+
  next
    fix i
    assume "i < length ?xs" "\<not> (?xs ! i = c \<and> count_list (drop (Suc i) ?xs) c < x)"
    then have "i \<notin> set (take x ?occ)" by (simp add: tk)
    then show "f_chars st' ! i = ?xs ! i"
      using s2 \<open>i < length ?xs\<close> by blast
  qed
  show ?thesis
    using s1 pos c2 s5 cls by blast
qed


lemma rightmost_excess_same:
  assumes "length ys = length xs" and "count_list ys d = count_list xs d"
    and "\<forall>j<length xs. (ys ! j = d) = (xs ! j = d)"
    and "i < length xs" and "xs ! i = d"
  shows "rightmost_excess ys i = rightmost_excess xs i"
proof -
  have "ys ! i = d" using assms(3,4,5) by simp
  moreover have "count_list (drop (Suc i) ys) d = count_list (drop (Suc i) xs) d"
    using count_drop_eq [OF assms(1)] assms(1,3) by simp
  ultimately show ?thesis
    using assms(2,5) by (simp add: rightmost_excess_def)
qed

lemma violators_spec:
  assumes sp: "sort_permutes e"
  shows "\<lbrakk>lockstep st; f_minus1 st = None; length (f_chars st) \<le> 144; distinct (map fst vs);
          \<forall>v\<in>set vs. \<exists>c. fst v = Some c \<and> count_list (f_chars st) c = snd v + 2 \<and> 0 < snd v;
          st' = fold (fixViolator e) vs st\<rbrakk> \<Longrightarrow>
     lockstep st' \<and> f_minus1 st' = None \<and> length (f_chars st') = length (f_chars st) \<and>
     (\<forall>i<length (f_chars st).
        (f_chars st' ! i \<noteq> f_chars st ! i) =
        (Some (f_chars st ! i) \<in> fst ` set vs \<and> rightmost_excess (f_chars st) i)) \<and>
     (\<forall>i<length (f_chars st). f_chars st' ! i \<noteq> f_chars st ! i \<longrightarrow>
        f_chars st' ! i \<in> set poolChars) \<and>
     (\<forall>d. (Some d \<in> fst ` set vs \<longrightarrow> count_list (f_chars st') d = 2) \<and>
          (Some d \<notin> fst ` set vs \<longrightarrow>
             count_list (f_chars st) d \<le> count_list (f_chars st') d \<and>
             (count_list (f_chars st') d = count_list (f_chars st) d \<or>
              count_list (f_chars st') d \<le> 2))) \<and>
     (\<forall>i<length (f_chars st).
        f_chars st' ! i \<noteq> f_chars st ! i \<and>
        (\<exists>d\<in>set (codePoints (getPool (classifyChar (f_chars st ! i)))).
           count_list (f_chars st') d < 2) \<longrightarrow>
        classifyChar (f_chars st' ! i) = classifyChar (f_chars st ! i))"
proof (induction vs arbitrary: st st')
  case Nil
  then show ?case by simp
next
  case (Cons v vs)
  let ?xs = "f_chars st"
  obtain c x where v: "v = (Some c, x)" and cx: "count_list ?xs c = x + 2" and xpos: "0 < x"
    using Cons.prems(5) by (cases v) auto
  define st1 where "st1 = fixViolator e (Some c, x) st"
  note f = fixViolator_spec [OF sp Cons.prems(1,2,3) cx st1_def]
  let ?ys = "f_chars st1"
  let ?zs = "f_chars st'"
  have f1: "lockstep st1" "f_minus1 st1 = None" "length ?ys = length ?xs"
    using f by simp_all
  have f_rep: "?ys ! i \<in> set poolChars \<and> ?ys ! i \<noteq> c \<and> count_list ?ys (?ys ! i) \<le> 2"
    if "i < length ?xs" "?xs ! i = c" "count_list (drop (Suc i) ?xs) c < x" for i
    using f that by simp
  have f_same: "?ys ! i = ?xs ! i"
    if "i < length ?xs" "\<not> (?xs ! i = c \<and> count_list (drop (Suc i) ?xs) c < x)" for i
    using f that by simp
  have f_c: "count_list ?ys c = 2" using f by simp
  have f_cls: "classifyChar (?ys ! i) = classifyChar c"
    if "\<exists>d\<in>set (codePoints (getPool (classifyChar c))). count_list ?ys d < 2"
      "i < length ?xs" "?xs ! i = c" "count_list (drop (Suc i) ?xs) c < x" for i
    using f that by blast
  have f_d: "count_list ?xs d \<le> count_list ?ys d \<and>
          (count_list ?ys d = count_list ?xs d \<or> count_list ?ys d \<le> 2)" if "d \<noteq> c" for d
    using f that by simp
  have cnotin: "Some c \<notin> fst ` set vs"
    using Cons.prems(4) v by simp
  have key: "d \<noteq> c \<and> 2 < count_list ?xs d \<and> count_list ?ys d = count_list ?xs d"
    if "Some d \<in> fst ` set vs" for d
  proof -
    from that obtain w where w: "Some d = fst w" "w \<in> set vs" by (rule imageE)
    then obtain c' where "fst w = Some c'" "count_list ?xs c' = snd w + 2" "0 < snd w"
      using Cons.prems(5) by fastforce
    then have b: "2 < count_list ?xs d" using w(1) by simp
    have n: "d \<noteq> c" using that cnotin by auto
    show ?thesis using b n f_d [OF n] by linarith
  qed
  have pre: "\<forall>w\<in>set vs. \<exists>c'. fst w = Some c' \<and> count_list ?ys c' = snd w + 2 \<and> 0 < snd w"
  proof
    fix w
    assume w: "w \<in> set vs"
    then obtain c' where c': "fst w = Some c'" "count_list ?xs c' = snd w + 2" "0 < snd w"
      using Cons.prems(5) by fastforce
    have "Some c' \<in> fst ` set vs" using w c'(1) by (metis imageI)
    then have "count_list ?ys c' = count_list ?xs c'" using key by simp
    then show "\<exists>c'. fst w = Some c' \<and> count_list ?ys c' = snd w + 2 \<and> 0 < snd w"
      using c' by simp
  qed
  have run: "st' = fold (fixViolator e) vs st1"
    using Cons.prems(6) by (simp add: v st1_def)
  have d2: "distinct (map fst vs)" using Cons.prems(4) by simp
  have l2: "length ?ys \<le> 144" using f1(3) Cons.prems(3) by simp
  note g = Cons.IH [OF f1(1,2) l2 d2 pre run]
  have g1: "lockstep st'" "f_minus1 st' = None" "length ?zs = length ?ys"
    using g by simp_all
  have g_pos: "(?zs ! i \<noteq> ?ys ! i) = (Some (?ys ! i) \<in> fst ` set vs \<and> rightmost_excess ?ys i)"
    if "i < length ?ys" for i
    using g that by simp
  have g_pool: "?zs ! i \<in> set poolChars" if "i < length ?ys" "?zs ! i \<noteq> ?ys ! i" for i
    using g that by simp
  have g_key: "count_list ?zs d = 2" if "Some d \<in> fst ` set vs" for d
    using g that by simp
  have g_other: "count_list ?ys d \<le> count_list ?zs d \<and>
      (count_list ?zs d = count_list ?ys d \<or> count_list ?zs d \<le> 2)"
    if "Some d \<notin> fst ` set vs" for d
    using g that by simp
  have g_cls: "classifyChar (?zs ! i) = classifyChar (?ys ! i)"
    if "i < length ?ys" "?zs ! i \<noteq> ?ys ! i"
      "\<exists>d\<in>set (codePoints (getPool (classifyChar (?ys ! i)))). count_list ?zs d < 2" for i
    using g that by blast
  have early: "count_list ?ys d < 2" if "count_list ?zs d < 2" for d
  proof -
    have "Some d \<notin> fst ` set vs" using g_key [of d] that by auto
    then show ?thesis using g_other [of d] that by linarith
  qed
  have keys: "fst ` set (v # vs) = insert (Some c) (fst ` set vs)"
    by (simp add: v)
  have rme_c: "rightmost_excess ?xs i = (count_list (drop (Suc i) ?xs) c < x)"
    if "?xs ! i = c" for i
    using that cx by (simp add: rightmost_excess_def)
  have pos: "(?zs ! i \<noteq> ?xs ! i) =
      (Some (?xs ! i) \<in> fst ` set (v # vs) \<and> rightmost_excess ?xs i) \<and>
      (?zs ! i \<noteq> ?xs ! i \<longrightarrow> ?zs ! i \<in> set poolChars)"
    if i: "i < length ?xs" for i
  proof (cases "?xs ! i = c \<and> count_list (drop (Suc i) ?xs) c < x")
    case True
    have r: "?ys ! i \<in> set poolChars" "?ys ! i \<noteq> c" "count_list ?ys (?ys ! i) \<le> 2"
      using f_rep [OF i] True by simp_all
    have "Some (?ys ! i) \<notin> fst ` set vs"
    proof
      assume "Some (?ys ! i) \<in> fst ` set vs"
      then have "2 < count_list ?ys (?ys ! i)" using key by simp
      then show False using r(3) by simp
    qed
    then have "?zs ! i = ?ys ! i" using g_pos [of i] i f1(3) by simp
    then show ?thesis
      using r True rme_c [of i] keys by simp
  next
    case False
    have same: "?ys ! i = ?xs ! i" using f_same [OF i False] .
    show ?thesis
    proof (cases "?xs ! i = c")
      case True
      then have "\<not> rightmost_excess ?xs i" using False rme_c [of i] by simp
      moreover have "?zs ! i = ?ys ! i"
        using g_pos [of i] i f1(3) same True cnotin by simp
      ultimately show ?thesis using same by simp
    next
      case nc: False
      let ?d = "?xs ! i"
      have in_keys: "(Some ?d \<in> fst ` set (v # vs)) = (Some ?d \<in> fst ` set vs)"
        using nc keys by auto
      have rme: "rightmost_excess ?ys i = rightmost_excess ?xs i" if k: "Some ?d \<in> fst ` set vs"
      proof -
        have kd: "2 < count_list ?xs ?d" "count_list ?ys ?d = count_list ?xs ?d"
          using key [OF k] by simp_all
        have "\<forall>j<length ?xs. (?ys ! j = ?d) = (?xs ! j = ?d)"
        proof (intro allI impI)
          fix j
          assume j: "j < length ?xs"
          show "(?ys ! j = ?d) = (?xs ! j = ?d)"
          proof (cases "?xs ! j = c \<and> count_list (drop (Suc j) ?xs) c < x")
            case True
            then have "count_list ?ys (?ys ! j) \<le> 2" using f_rep [OF j] by simp
            then have "?ys ! j \<noteq> ?d" using kd by auto
            then show ?thesis using True nc by auto
          next
            case False
            then show ?thesis using f_same [OF j] by simp
          qed
        qed
        then show ?thesis
          using rightmost_excess_same [OF f1(3) kd(2) _ i refl] by simp
      qed
      have "(?zs ! i \<noteq> ?xs ! i) = (Some ?d \<in> fst ` set vs \<and> rightmost_excess ?ys i)"
        using g_pos [of i] i f1(3) same by simp
      then have "(?zs ! i \<noteq> ?xs ! i) = (Some ?d \<in> fst ` set vs \<and> rightmost_excess ?xs i)"
        using rme by auto
      moreover have "?zs ! i \<noteq> ?xs ! i \<longrightarrow> ?zs ! i \<in> set poolChars"
        using g_pool [of i] i f1(3) same by simp
      ultimately show ?thesis using in_keys by simp
    qed
  qed
  have cnt: "(Some d \<in> fst ` set (v # vs) \<longrightarrow> count_list ?zs d = 2) \<and>
          (Some d \<notin> fst ` set (v # vs) \<longrightarrow>
             count_list ?xs d \<le> count_list ?zs d \<and>
             (count_list ?zs d = count_list ?xs d \<or> count_list ?zs d \<le> 2))" for d
  proof (cases "d = c")
    case True
    have "count_list ?zs c = 2"
      using g_other [OF cnotin] f_c by linarith
    then show ?thesis using True keys by simp
  next
    case False
    show ?thesis
    proof (cases "Some d \<in> fst ` set vs")
      case True
      then show ?thesis using g_key keys by simp
    next
      case nk: False
      have "Some d \<notin> fst ` set (v # vs)" using nk False keys by simp
      moreover have "count_list ?xs d \<le> count_list ?zs d \<and>
             (count_list ?zs d = count_list ?xs d \<or> count_list ?zs d \<le> 2)"
        using g_other [OF nk] f_d [OF False] by linarith
      ultimately show ?thesis by simp
    qed
  qed
  have cls: "classifyChar (?zs ! i) = classifyChar (?xs ! i)"
    if i: "i < length ?xs" and ch: "?zs ! i \<noteq> ?xs ! i"
      and ex: "\<exists>d\<in>set (codePoints (getPool (classifyChar (?xs ! i)))). count_list ?zs d < 2" for i
  proof (cases "?xs ! i = c \<and> count_list (drop (Suc i) ?xs) c < x")
    case True
    have r: "count_list ?ys (?ys ! i) \<le> 2" using f_rep [OF i] True by simp
    have "Some (?ys ! i) \<notin> fst ` set vs"
    proof
      assume "Some (?ys ! i) \<in> fst ` set vs"
      then have "2 < count_list ?ys (?ys ! i)" using key by simp
      then show False using r by simp
    qed
    then have same: "?zs ! i = ?ys ! i" using g_pos [of i] i f1(3) by simp
    have "\<exists>d\<in>set (codePoints (getPool (classifyChar c))). count_list ?ys d < 2"
      using ex early True by auto
    then have "classifyChar (?ys ! i) = classifyChar c"
      using f_cls [of i] i True by simp
    then show ?thesis using same True by simp
  next
    case False
    have same: "?ys ! i = ?xs ! i" using f_same [OF i False] .
    show ?thesis
      using g_cls [of i] i f1(3) ch ex same by simp
  qed
  have len: "length ?zs = length ?xs" using g1(3) f1(3) by simp
  show ?case
    using g1(1,2) len pos cnt cls by simp
qed

section \<open>Phase 1 from the initial state\<close>

lemma init_fields:
  "f_chars (tryFix_init s pos) = codePoints s" "f_minus1 (tryFix_init s pos) = None"
  "f_counts (tryFix_init s pos) = countChars s" "f_changes (tryFix_init s pos) = []"
  "f_pos (tryFix_init s pos) = pos"
  by (simp_all add: tryFix_init_def)

lemma init_lockstep: "lockstep (tryFix_init s pos)"
  by (simp add: lockstep_def held_def init_fields countChars_getOr)

lemma violators_distinct:
  "distinct (map fst (collectViolators (countChars s)))"
proof -
  have "fst \<circ> (\<lambda>(ch, n). (ch, n - 2)) = (fst :: jsstring option \<times> nat \<Rightarrow> jsstring option)"
    by auto
  then have "map fst (collectViolators (countChars s)) =
        map fst (filter (\<lambda>(ch, n). n > 2) (countChars s))"
    by (simp add: collectViolators_def)
  then show ?thesis
    using countChars_distinct [of s] distinct_map_filter by simp
qed

lemma violators_entries:
  "(v \<in> set (collectViolators (countChars s))) =
   (\<exists>c. fst v = Some c \<and> count_list (codePoints s) c = snd v + 2 \<and> 0 < snd v)"
proof
  assume "v \<in> set (collectViolators (countChars s))"
  then obtain k n where kn: "(k, n) \<in> set (countChars s)" "2 < n" "v = (k, n - 2)"
    by (auto simp: collectViolators_def)
  then obtain c where "k = Some c" "n = count_list (codePoints s) c"
    by (auto simp: countChars_entry)
  then show "\<exists>c. fst v = Some c \<and> count_list (codePoints s) c = snd v + 2 \<and> 0 < snd v"
    using kn by simp
next
  assume "\<exists>c. fst v = Some c \<and> count_list (codePoints s) c = snd v + 2 \<and> 0 < snd v"
  then obtain c where c: "fst v = Some c" "count_list (codePoints s) c = snd v + 2" "0 < snd v"
    by blast
  then have "c \<in> set (codePoints s)"
    by (metis add_is_0 count_list_0_iff zero_neq_numeral)
  then have "(Some c, count_list (codePoints s) c) \<in> set (countChars s)"
    by (simp add: countChars_entry)
  moreover have "v = (Some c, count_list (codePoints s) c - 2)"
    using c by (cases v) simp
  moreover have "2 < count_list (codePoints s) c" using c by simp
  ultimately show "v \<in> set (collectViolators (countChars s))"
    by (force simp: image_iff collectViolators_def)
qed

lemma violator_keys:
  "(Some d \<in> fst ` set (collectViolators (countChars s))) =
   (2 < count_list (codePoints s) d)"
proof
  assume "Some d \<in> fst ` set (collectViolators (countChars s))"
  then obtain v where "Some d = fst v"
      "v \<in> set (collectViolators (countChars s))"
    by (rule imageE)
  then show "2 < count_list (codePoints s) d"
    using violators_entries [of v s] by auto
next
  assume b: "2 < count_list (codePoints s) d"
  let ?v = "(Some d, count_list (codePoints s) d - 2)"
  have "?v \<in> set (collectViolators (countChars s))"
    using b violators_entries [of ?v s] by simp
  then have "fst ?v \<in> fst ` set (collectViolators (countChars s))"
    by (rule imageI)
  then show "Some d \<in> fst ` set (collectViolators (countChars s))"
    by simp
qed

lemma rightmost_excess_big: "rightmost_excess xs i \<Longrightarrow> 2 < count_list xs (xs ! i)"
  by (simp add: rightmost_excess_def)

lemma phase1_spec:
  assumes sp: "sort_permutes e" and len: "length (codePoints s) \<le> 144"
    and st1: "st1 = phase1 e (tryFix_init s pos)"
  shows "lockstep st1 \<and> f_minus1 st1 = None \<and> length (f_chars st1) = length (codePoints s) \<and>
     (\<forall>i<length (codePoints s).
        (f_chars st1 ! i \<noteq> codePoints s ! i) = rightmost_excess (codePoints s) i) \<and>
     (\<forall>i<length (codePoints s). f_chars st1 ! i \<noteq> codePoints s ! i \<longrightarrow>
        f_chars st1 ! i \<in> set poolChars) \<and>
     (\<forall>d. count_list (f_chars st1) d \<le> 2) \<and>
     (\<forall>i<length (codePoints s).
        f_chars st1 ! i \<noteq> codePoints s ! i \<and>
        (\<exists>d\<in>set (codePoints (getPool (classifyChar (codePoints s ! i)))).
           count_list (f_chars st1) d < 2) \<longrightarrow>
        classifyChar (f_chars st1 ! i) = classifyChar (codePoints s ! i))"
proof -
  let ?st0 = "tryFix_init s pos"
  let ?vs = "collectViolators (countChars s)"
  let ?cps = "codePoints s"
  have run: "st1 = fold (fixViolator e) ?vs ?st0"
    by (simp add: st1 phase1_def init_fields)
  have pre: "\<forall>v\<in>set ?vs. \<exists>c. fst v = Some c \<and> count_list (f_chars ?st0) c = snd v + 2 \<and> 0 < snd v"
  proof
    fix v
    assume "v \<in> set ?vs"
    then show "\<exists>c. fst v = Some c \<and> count_list (f_chars ?st0) c = snd v + 2 \<and> 0 < snd v"
      using violators_entries [of v s] by (simp add: init_fields)
  qed
  have len0: "length (f_chars ?st0) \<le> 144"
    using len by (simp add: init_fields)
  note v = violators_spec [OF sp init_lockstep init_fields(2) len0 violators_distinct pre run]
  have v1: "lockstep st1" "f_minus1 st1 = None" "length (f_chars st1) = length ?cps"
    using v by (simp_all add: init_fields)
  have v_pos: "(f_chars st1 ! i \<noteq> ?cps ! i) = (Some (?cps ! i) \<in> fst ` set ?vs \<and> rightmost_excess ?cps i)"
    if "i < length ?cps" for i
    using v that by (simp add: init_fields)
  have v_pool: "f_chars st1 ! i \<in> set poolChars"
    if "i < length ?cps" "f_chars st1 ! i \<noteq> ?cps ! i" for i
    using v that by (simp add: init_fields)
  have v_key: "count_list (f_chars st1) d = 2" if "Some d \<in> fst ` set ?vs" for d
    using v that by simp
  have v_other: "count_list (f_chars st1) d = count_list ?cps d \<or> count_list (f_chars st1) d \<le> 2"
    if "Some d \<notin> fst ` set ?vs" for d
    using v that by (simp add: init_fields)
  have pos: "(f_chars st1 ! i \<noteq> ?cps ! i) = rightmost_excess ?cps i" if "i < length ?cps" for i
    using v_pos [OF that] rightmost_excess_big [of ?cps i] violator_keys [of "?cps ! i" s] by auto
  have cnt: "count_list (f_chars st1) d \<le> 2" for d
  proof (cases "Some d \<in> fst ` set ?vs")
    case True
    then show ?thesis using v_key by simp
  next
    case False
    then have "\<not> 2 < count_list ?cps d" using violator_keys [of d s] by simp
    then show ?thesis using v_other [OF False] by linarith
  qed
  have v_cls: "classifyChar (f_chars st1 ! i) = classifyChar (?cps ! i)"
    if "i < length ?cps" "f_chars st1 ! i \<noteq> ?cps ! i"
      "\<exists>d\<in>set (codePoints (getPool (classifyChar (?cps ! i)))). count_list (f_chars st1) d < 2" for i
    using v that by (simp add: init_fields)
  show ?thesis
    using v1 pos v_pool cnt v_cls by simp
qed

section \<open>The invariant through phases 2 to 4\<close>

lemma held_same: "same_step st st' \<Longrightarrow> held st' = held st"
  by (simp add: same_step_def held_def)

lemma fixinv_same: "fixinv st \<Longrightarrow> same_step st st' \<Longrightarrow> fixinv st'"
  using held_same [of st st'] by (simp add: fixinv_def lockstep_def same_step_def)

lemma fixinv_subst:
  assumes inv: "fixinv st" and step: "subst_step st st'"
  shows "fixinv st'"
proof -
  obtain r idx where r: "r \<in> set poolChars" "avail (f_counts st) r" "idx < length (held st)"
      "held st' = (held st)[idx := r]"
      "f_counts st' = moveCount (Some (held st ! idx)) r (f_counts st)"
      "set (f_chars st') \<subseteq> insert r (set (f_chars st))"
    using step unfolding subst_step_def by blast
  have l: "lockstep st" using inv by (simp add: fixinv_def)
  have l': "lockstep st'"
    using lockstep_subst [OF l r(3,4,5)] .
  have len: "length (held st') \<le> 144"
    using inv r(4) by (simp add: fixinv_def)
  have cp: "\<forall>c\<in>set (f_chars st'). isCodePoint c"
    using inv r(1,6) poolChars_isCodePoint by (auto simp: fixinv_def)
  have rlow: "count_list (held st) r < 2"
    using r(2) l by (simp add: avail_def lockstep_def)
  have cnt: "count_list (held st') c \<le> 2" for c
  proof -
    have u: "count_list (held st') c + (if held st ! idx = c then 1 else 0) =
        count_list (held st) c + (if r = c then 1 else 0)"
      using count_list_update [OF r(3), of r c] r(4) by simp
    have "count_list (held st) c \<le> 2" using inv by (simp add: fixinv_def)
    then show ?thesis using u rlow by (cases "r = c") (auto split: if_splits)
  qed
  show ?thesis
    using l' len cp cnt by (simp add: fixinv_def)
qed

lemma fixinv_grow:
  assumes inv: "fixinv st" and step: "grow_step st st'" and small: "length (held st) < 144"
  shows "fixinv st'"
proof -
  obtain r where r: "r \<in> set poolChars" "avail (f_counts st) r"
      "\<forall>c. count_list (held st') c = count_list (held st) c + (if c = r then 1 else 0)"
      "\<forall>c. getOr 0 (f_counts st') (Some c) =
            getOr 0 (f_counts st) (Some c) + (if c = r then 1 else 0)"
      "length (held st') = Suc (length (held st))"
      "set (f_chars st') \<subseteq> insert r (set (f_chars st))"
    using step unfolding grow_step_def by blast
  have l: "lockstep st" using inv by (simp add: fixinv_def)
  have l': "lockstep st'"
    using lockstep_grow [OF l r(3,4)] .
  have len: "length (held st') \<le> 144"
    using small r(5) by simp
  have cp: "\<forall>c\<in>set (f_chars st'). isCodePoint c"
    using inv r(1,6) poolChars_isCodePoint by (auto simp: fixinv_def)
  have rlow: "count_list (held st) r < 2"
    using r(2) l by (simp add: avail_def lockstep_def)
  have cnt: "count_list (held st') c \<le> 2" for c
  proof -
    have "count_list (held st) c \<le> 2" using inv by (simp add: fixinv_def)
    then show ?thesis using r(3) rlow by (cases "c = r") auto
  qed
  show ?thesis
    using l' len cp cnt by (simp add: fixinv_def)
qed

lemma bestLoop_range:
  "bestLoop cls cc chars is b s = b \<or> (\<exists>i\<in>set is. bestLoop cls cc chars is b s = int i)"
proof (induction "is" arbitrary: b s)
  case Nil
  then show ?case by simp
next
  case (Cons i "is")
  show ?case
    using Cons [of b s] Cons [of "int i" "cc (classifyChar (chars ! i))"]
    by (auto simp: Let_def)
qed

lemma bestIdx_range:
  assumes "chars \<noteq> []" and "b0 = bestLoop cls cc chars (rev [0..<length chars]) (- 1) 0"
    and "b = (if b0 = - 1 then int (length chars) - 1 else b0)"
  shows "0 \<le> b \<and> nat b < length chars"
proof (cases "b0 = - 1")
  case True
  then show ?thesis using assms(1,3) by (cases chars) auto
next
  case False
  then obtain i where "i \<in> set (rev [0..<length chars])" "b0 = int i"
    using bestLoop_range [of cls cc chars "rev [0..<length chars]" "- 1" 0] assms(2)
    by auto
  then show ?thesis using False assms(3) by simp
qed


lemma classCheck_some:
  assumes "\<not> classTest cls (f_chars st)"
    and "pickAvailable e (getPool cls) (f_counts st) (f_pos st) = (Some r, p)" and "r \<noteq> []"
    and "b0 = bestLoop cls (classCounts (f_chars st)) (f_chars st) (rev [0..<length (f_chars st)]) (- 1) 0"
    and "b = (if b0 = - 1 then int (length (f_chars st)) - 1 else b0)"
    and "oldCh = (if b < 0 then f_minus1 st else Some (f_chars st ! nat b))"
  shows "classCheck e cls st =
     st\<lparr>f_changes := f_changes st @ [\<lparr>c_index = b, c_from = oldCh, c_to = r\<rparr>],
        f_chars := (if b < 0 then f_chars st else (f_chars st)[nat b := r]),
        f_minus1 := (if b < 0 then Some r else f_minus1 st),
        f_counts := moveCount oldCh r (f_counts st),
        f_pos := p\<rparr>"
  using assms by (simp add: classCheck_def Let_def)

lemma classCheck_step:
  "same_step st (classCheck e cls st) \<or> subst_step st (classCheck e cls st) \<or>
   (grow_step st (classCheck e cls st) \<and> held st = [])"
proof (cases "classTest cls (f_chars st)")
  case True
  then show ?thesis by (simp add: classCheck_def same_step_def)
next
  case False
  from pickAvailable_cases [of "getPool cls" "f_counts st" e "f_pos st"]
  show ?thesis
  proof
    assume "(\<forall>c\<in>set (codePoints (getPool cls)). \<not> avail (f_counts st) c) \<and>
        pickAvailable e (getPool cls) (f_counts st) (f_pos st) = (None, f_pos st)"
    then show ?thesis using False by (simp add: classCheck_def same_step_def)
  next
    assume "\<exists>c\<in>set (codePoints (getPool cls)). avail (f_counts st) c \<and>
        pickAvailable e (getPool cls) (f_counts st) (f_pos st) = (Some c, Suc (f_pos st))"
    then obtain r where r0: "r \<in> set (codePoints (getPool cls))" and av: "avail (f_counts st) r"
        and pick: "pickAvailable e (getPool cls) (f_counts st) (f_pos st) = (Some r, Suc (f_pos st))"
      by blast
    have rp: "r \<in> set poolChars" using r0 by (rule getPool_sub)
    then have rne: "r \<noteq> []" by (rule poolChars_nonempty)
    let ?chars = "f_chars st"
    define b0 where "b0 = bestLoop cls (classCounts ?chars) ?chars (rev [0..<length ?chars]) (- 1) 0"
    define b where "b = (if b0 = - 1 then int (length ?chars) - 1 else b0)"
    define oldCh where "oldCh = (if b < 0 then f_minus1 st else Some (?chars ! nat b))"
    define st' where "st' = classCheck e cls st"
    have eq: "st' =
       st\<lparr>f_changes := f_changes st @ [\<lparr>c_index = b, c_from = oldCh, c_to = r\<rparr>],
          f_chars := (if b < 0 then ?chars else ?chars[nat b := r]),
          f_minus1 := (if b < 0 then Some r else f_minus1 st),
          f_counts := moveCount oldCh r (f_counts st),
          f_pos := Suc (f_pos st)\<rparr>"
      unfolding st'_def using classCheck_some [OF False pick rne b0_def b_def oldCh_def] .
    show ?thesis
    proof (cases "?chars = []")
      case empty: True
      then have bneg: "b = - 1" by (simp add: b_def b0_def)
      have f': "f_chars st' = []" "f_minus1 st' = Some r"
        "f_counts st' = moveCount (f_minus1 st) r (f_counts st)"
        using empty bneg by (simp_all add: eq oldCh_def)
      have h': "held st' = [r]" using f' by (simp add: held_def)
      show ?thesis
      proof (cases "f_minus1 st")
        case None
        then have h: "held st = []" using empty by (simp add: held_def)
        have "grow_step st st'"
          unfolding grow_step_def
          using rp av h h' f' None by (intro exI [of _ r]) (auto simp: getOr0_moveCount)
        then show ?thesis using h by (simp add: st'_def)
      next
        case (Some x)
        then have h: "held st = [x]" using empty by (simp add: held_def)
        have "subst_step st st'"
          unfolding subst_step_def
          using rp av h h' f' Some empty by (intro exI [of _ r] exI [of _ 0]) simp
        then show ?thesis by (simp add: st'_def)
      qed
    next
      case nonempty: False
      have rng: "0 \<le> b \<and> nat b < length ?chars"
        using bestIdx_range [OF nonempty b0_def b_def] .
      then have nb: "\<not> b < 0" by simp
      have f': "f_chars st' = ?chars[nat b := r]" "f_minus1 st' = f_minus1 st"
        "f_counts st' = moveCount (Some (?chars ! nat b)) r (f_counts st)"
        using nb by (simp_all add: eq oldCh_def)
      have h': "held st' = (held st)[nat b := r]"
        using f' rng by (simp add: held_def list_update_append1)
      have old: "held st ! nat b = ?chars ! nat b"
        using rng by (simp add: held_def nth_append)
      have "subst_step st st'"
        unfolding subst_step_def
        using rp av h' f' rng old set_update_subset_insert [of ?chars "nat b" r]
        by (intro exI [of _ r] exI [of _ "nat b"]) (simp add: held_def)
      then show ?thesis by (simp add: st'_def)
    qed
  qed
qed

lemma classCheck_inv:
  assumes "fixinv st"
  shows "fixinv (classCheck e cls st)"
proof -
  consider "same_step st (classCheck e cls st)" | "subst_step st (classCheck e cls st)"
    | "grow_step st (classCheck e cls st)" "held st = []"
    using classCheck_step [of st e cls] by blast
  then show ?thesis
  proof cases
    case 1
    then show ?thesis using assms fixinv_same by blast
  next
    case 2
    then show ?thesis using assms fixinv_subst by blast
  next
    case 3
    then show ?thesis using assms fixinv_grow [of st "classCheck e cls st"] by simp
  qed
qed

lemma phase2_inv: "fixinv st \<Longrightarrow> fixinv (phase2 e st)"
  by (simp add: phase2_def classCheck_inv)


lemma held_length: "length (held st) \<le> Suc (length (f_chars st))"
  by (simp add: held_def split: option.split)

lemma phase3_inv: "fixinv st \<Longrightarrow> fixinv (phase3 e st)"
proof (induction e st rule: phase3.induct)
  case (1 e st)
  show ?case
  proof (cases "length (f_chars st) < 8")
    case False
    then show ?thesis using "1.prems" by (subst phase3.simps) simp
  next
    case True
    obtain ch p where pick: "pickAnyAvailable e (f_counts st) (f_pos st) = (ch, p)"
      by (cases "pickAnyAvailable e (f_counts st) (f_pos st)") auto
    show ?thesis
    proof (cases ch)
      case None
      have "phase3 e st = st\<lparr>f_pos := p\<rparr>"
        using True pick None by (subst phase3.simps) simp
      moreover have "same_step st (st\<lparr>f_pos := p\<rparr>)" by (simp add: same_step_def)
      ultimately show ?thesis using "1.prems" fixinv_same by simp
    next
      case (Some c)
      have cp: "c \<in> set poolChars" "avail (f_counts st) c"
        using pickAnyAvailable_sound pick Some by auto
      then have cne: "c \<noteq> []" using poolChars_nonempty by blast
      define st2 where "st2 = st\<lparr>f_chars := f_chars st @ [c],
                       f_counts := incCount c (f_counts st),
                       f_changes := f_changes st @
                         [\<lparr>c_index = int (length (f_chars st)), c_from = Some [], c_to = c\<rparr>],
                       f_pos := p\<rparr>"
      have unfold: "phase3 e st = phase3 e st2"
        using True pick Some cne by (subst phase3.simps) (simp add: st2_def)
      have "grow_step st st2"
        unfolding grow_step_def
        using cp by (intro exI [of _ c]) (auto simp: st2_def held_def getOr0_incCount)
      moreover have "length (held st) < 144"
        using True held_length [of st] by linarith
      ultimately have "fixinv st2"
        using "1.prems" fixinv_grow by blast
      then have "fixinv (phase3 e st2)"
        using "1.IH" [OF True pick [symmetric] refl Some cne] by (simp add: st2_def)
      then show ?thesis using unfold by simp
    qed
  qed
qed

lemma unknown_not_pool: "classifyChar c = Unknown \<Longrightarrow> c \<notin> set poolChars"
  using poolChars_known by blast

lemma cleanStep_spec:
  assumes sp: "sort_permutes e" and inv: "fixinv st" and i: "i < length (f_chars st)"
  shows "fixinv (cleanStep e i st) \<and>
     length (f_chars (cleanStep e i st)) = length (f_chars st) \<and>
     classifyChar (f_chars (cleanStep e i st) ! i) \<noteq> Unknown \<and>
     (\<forall>j<length (f_chars st). j \<noteq> i \<longrightarrow> f_chars (cleanStep e i st) ! j = f_chars st ! j)"
proof (cases "classifyChar (f_chars st ! i) = Unknown")
  case False
  then show ?thesis using inv by (simp add: cleanStep_def)
next
  case True
  let ?chars = "f_chars st"
  have "?chars ! i \<in> set (held st)" using i by (simp add: held_def)
  moreover have "?chars ! i \<notin> set poolChars" using True by (rule unknown_not_pool)
  ultimately have "\<exists>x\<in>set (held st). x \<notin> set poolChars" by blast
  moreover have "\<forall>c. getOr 0 (f_counts st) (Some c) = count_list (held st) c"
    using inv by (simp add: fixinv_def lockstep_def)
  moreover have "length (held st) \<le> 144" using inv by (simp add: fixinv_def)
  ultimately have "\<exists>c\<in>set poolChars. avail (f_counts st) c"
    using available_exists by blast
  then obtain r p where pick: "pickAnyAvailable e (f_counts st) (f_pos st) = (Some r, p)"
    using pickAnyAvailable_complete [OF sp] by blast
  have rp: "r \<in> set poolChars" "avail (f_counts st) r"
    using pickAnyAvailable_sound [OF pick] by auto
  then have rne: "r \<noteq> []" using poolChars_nonempty by blast
  define st' where "st' = cleanStep e i st"
  have eq: "st' = st\<lparr>f_changes := f_changes st @ [\<lparr>c_index = int i, c_from = Some (?chars ! i), c_to = r\<rparr>],
                          f_counts := moveCount (Some (?chars ! i)) r (f_counts st),
                          f_chars := ?chars[i := r],
                          f_pos := p\<rparr>"
    using True pick rne by (simp add: st'_def cleanStep_def Let_def)
  have f': "f_chars st' = ?chars[i := r]" "f_minus1 st' = f_minus1 st"
    "f_counts st' = moveCount (Some (?chars ! i)) r (f_counts st)"
    by (simp_all add: eq)
  have h': "held st' = (held st)[i := r]"
    using f' i by (simp add: held_def list_update_append1)
  have old: "held st ! i = ?chars ! i"
    using i by (simp add: held_def nth_append)
  have "subst_step st st'"
    unfolding subst_step_def
    using rp h' f' i old set_update_subset_insert [of ?chars i r]
    by (intro exI [of _ r] exI [of _ i]) (simp add: held_def)
  then have "fixinv st'" using inv fixinv_subst by blast
  moreover have "classifyChar (f_chars st' ! i) \<noteq> Unknown"
    using f'(1) i rp(1) poolChars_known by simp
  moreover have "\<forall>j<length ?chars. j \<noteq> i \<longrightarrow> f_chars st' ! j = ?chars ! j"
    by (simp add: f'(1))
  ultimately show ?thesis by (simp add: st'_def [symmetric] f'(1))
qed

lemma phase4_fold:
  assumes sp: "sort_permutes e"
  shows "fixinv st \<Longrightarrow> \<forall>i\<in>set is. i < length (f_chars st) \<Longrightarrow>
     fixinv (fold (cleanStep e) is st) \<and>
     length (f_chars (fold (cleanStep e) is st)) = length (f_chars st) \<and>
     (\<forall>j<length (f_chars st). classifyChar (f_chars st ! j) \<noteq> Unknown \<or> j \<in> set is \<longrightarrow>
        classifyChar (f_chars (fold (cleanStep e) is st) ! j) \<noteq> Unknown)"
proof (induction "is" arbitrary: st)
  case Nil
  then show ?case by simp
next
  case (Cons i "is")
  let ?st1 = "cleanStep e i st"
  have i: "i < length (f_chars st)" using Cons.prems(2) by simp
  note c = cleanStep_spec [OF sp Cons.prems(1) i]
  have c1: "fixinv ?st1" "length (f_chars ?st1) = length (f_chars st)"
    "classifyChar (f_chars ?st1 ! i) \<noteq> Unknown"
    using c by simp_all
  have c2: "f_chars ?st1 ! j = f_chars st ! j" if "j < length (f_chars st)" "j \<noteq> i" for j
    using c that by simp
  have rest: "\<forall>i\<in>set is. i < length (f_chars ?st1)"
    using Cons.prems(2) c1(2) by simp
  note ih = Cons.IH [OF c1(1) rest]
  have ih1: "fixinv (fold (cleanStep e) is ?st1)"
    "length (f_chars (fold (cleanStep e) is ?st1)) = length (f_chars ?st1)"
    using ih by simp_all
  have ih2: "classifyChar (f_chars (fold (cleanStep e) is ?st1) ! j) \<noteq> Unknown"
    if "j < length (f_chars ?st1)" "classifyChar (f_chars ?st1 ! j) \<noteq> Unknown \<or> j \<in> set is" for j
    using ih that by blast
  have "classifyChar (f_chars (fold (cleanStep e) is ?st1) ! j) \<noteq> Unknown"
    if j: "j < length (f_chars st)"
      "classifyChar (f_chars st ! j) \<noteq> Unknown \<or> j \<in> set (i # is)" for j
  proof (cases "j = i")
    case True
    then show ?thesis using ih2 [of i] c1(2,3) i by simp
  next
    case False
    then have "classifyChar (f_chars ?st1 ! j) \<noteq> Unknown \<or> j \<in> set is"
      using j c2 [OF j(1) False] by auto
    then show ?thesis using ih2 [of j] j(1) c1(2) by simp
  qed
  then show ?case using ih1 c1(2) by simp
qed

lemma phase4_spec:
  assumes sp: "sort_permutes e" and inv: "fixinv st"
  shows "fixinv (phase4 e st) \<and> (\<forall>c\<in>set (f_chars (phase4 e st)). c \<in> set poolChars)"
proof -
  let ?st' = "phase4 e st"
  have idx: "\<forall>i\<in>set [0..<length (f_chars st)]. i < length (f_chars st)" by simp
  note p = phase4_fold [OF sp inv idx]
  have p1: "fixinv ?st'" "length (f_chars ?st') = length (f_chars st)"
    using p by (simp_all add: phase4_def)
  have p2: "classifyChar (f_chars ?st' ! j) \<noteq> Unknown" if "j < length (f_chars st)" for j
    using p that by (simp add: phase4_def)
  have "c \<in> set poolChars" if cin: "c \<in> set (f_chars ?st')" for c
  proof -
    obtain j where j: "j < length (f_chars ?st')" "f_chars ?st' ! j = c"
      using cin unfolding in_set_conv_nth by blast
    have "classifyChar c \<noteq> Unknown" using p2 [of j] j p1(2) by simp
    moreover have "isCodePoint c" using p1(1) cin by (simp add: fixinv_def)
    ultimately show ?thesis by (simp add: known_codePoint_in_pool)
  qed
  then show ?thesis using p1(1) by simp
qed

section \<open>One attempt on a password of at most 144 characters\<close>

lemma phase1_inv:
  assumes sp: "sort_permutes e" and len: "length (codePoints s) \<le> 144"
  shows "fixinv (phase1 e (tryFix_init s pos))"
proof -
  let ?st1 = "phase1 e (tryFix_init s pos)"
  note p = phase1_spec [OF sp len refl, of pos]
  have p1: "lockstep ?st1" "f_minus1 ?st1 = None" "length (f_chars ?st1) = length (codePoints s)"
    using p by simp_all
  have p2: "f_chars ?st1 ! i \<in> set poolChars"
    if "i < length (codePoints s)" "f_chars ?st1 ! i \<noteq> codePoints s ! i" for i
    using p that by simp
  have p3: "count_list (f_chars ?st1) d \<le> 2" for d
    using p by simp
  have h: "held ?st1 = f_chars ?st1" using p1(2) by (rule held_None)
  have cp: "isCodePoint c" if cin: "c \<in> set (f_chars ?st1)" for c
  proof -
    obtain j where j: "j < length (f_chars ?st1)" "f_chars ?st1 ! j = c"
      using cin unfolding in_set_conv_nth by blast
    show ?thesis
    proof (cases "c = codePoints s ! j")
      case True
      then have "c \<in> set (codePoints s)" using j(1) p1(3) by simp
      then show ?thesis by (rule codePoints_isCodePoint)
    next
      case False
      then have "c \<in> set poolChars" using p2 [of j] j p1(3) by simp
      then show ?thesis by (rule poolChars_isCodePoint)
    qed
  qed
  show ?thesis
    using p1 p3 cp len by (simp add: fixinv_def h)
qed

lemma tryFix_state_spec:
  assumes sp: "sort_permutes e" and len: "length (codePoints s) \<le> 144"
  shows "set (f_chars (tryFix_state e s pos)) \<subseteq> set poolChars \<and>
     (\<forall>c. count_list (f_chars (tryFix_state e s pos)) c \<le> 2)"
proof -
  let ?st = "tryFix_state e s pos"
  have "fixinv (phase3 e (phase2 e (phase1 e (tryFix_init s pos))))"
    using phase1_inv [OF sp len] phase2_inv phase3_inv by simp
  then have f: "fixinv ?st" "\<forall>c\<in>set (f_chars ?st). c \<in> set poolChars"
    using phase4_spec [OF sp] by (simp_all add: tryFix_state_def)
  have "count_list (f_chars ?st) c \<le> 2" for c
  proof -
    have "count_list (f_chars ?st) c \<le> count_list (held ?st) c"
      by (simp add: held_def)
    moreover have "count_list (held ?st) c \<le> 2" using f(1) by (simp add: fixinv_def)
    ultimately show ?thesis by simp
  qed
  then show ?thesis using f(2) by blast
qed

lemma tryFix_bounded:
  assumes sp: "sort_permutes e" and len: "length (codePoints s) \<le> 144"
  shows "set (fixed (fst (tryFix e s pos))) \<subseteq> set pool \<and>
     set (codePoints (fixed (fst (tryFix e s pos)))) \<subseteq> set poolChars \<and>
     (\<forall>c. count_list (codePoints (fixed (fst (tryFix e s pos)))) c \<le> 2)"
proof -
  let ?chars = "f_chars (tryFix_state e s pos)"
  note t = tryFix_state_spec [OF sp len, of pos]
  have sub: "set ?chars \<subseteq> set poolChars" using t by simp
  have fx: "fixed (fst (tryFix e s pos)) = concat ?chars"
    by (simp add: tryFix_def Let_def)
  have cp: "codePoints (concat ?chars) = ?chars"
    using sub by (rule codePoints_concat_pool)
  show ?thesis
    using t set_concat_pool [OF sub] by (simp add: fx cp)
qed

lemma fixLoop_any:
  "(\<And>p. P (fst (tryFix e s p))) \<Longrightarrow> P (fst (fixLoop e s attempt pos))"
proof (induction e s attempt pos rule: fixLoop.induct)
  case (1 e s attempt pos)
  show ?case
  proof (cases "attempt < 3 \<and> \<not> valid (fst (tryFix e s pos))")
    case True
    then have "fixLoop e s attempt pos = fixLoop e s (attempt + 1) (snd (tryFix e s pos))"
      by (simp add: fixLoop_step)
    moreover have "P (fst (fixLoop e s (attempt + 1) (snd (tryFix e s pos))))"
      using "1.IH" [of "tryFix e s pos" "fst (tryFix e s pos)" "snd (tryFix e s pos)"]
        True "1.prems" by simp
    ultimately show ?thesis by simp
  next
    case False
    then have "fst (fixLoop e s attempt pos) = fst (tryFix e s pos)"
      by (cases "attempt < 3") (simp_all add: fixLoop_step fixLoop_last)
    then show ?thesis using "1.prems" by simp
  qed
qed

lemma fix_pw_any: "(\<And>p. P (fst (tryFix e s p))) \<Longrightarrow> P (fix_pw e s pos)"
  unfolding fix_pw_def fix_run_def by (rule fixLoop_any)

section \<open>The insertion sort is a sort\<close>

lemma insertFrom_set: "set (fst (insertFrom cmp k x ys)) = insert x (set ys)"
  by (induction ys arbitrary: k) (auto simp: split_def Let_def)

lemma insertionSortFrom_set:
  "set (fst (insertionSortFrom cmp k done xs)) = set done \<union> set xs"
proof (induction xs arbitrary: k "done")
  case Nil
  then show ?case by simp
next
  case (Cons x xs)
  show ?case
    using Cons [of "snd (insertFrom cmp k x done)" "fst (insertFrom cmp k x done)"]
      insertFrom_set [of cmp k x "done"]
    by (simp add: split_def Let_def)
qed

lemma sort_permutes_env_ones: "sort_permutes env_ones"
  by (simp add: sort_permutes_def env_ones_def insertionSort_def insertionSortFrom_set)

section \<open>The repeat limit and the alphabet of the fixed password\<close>

text \<open>
  Claim C5, as the code has it: for every string \<open>s\<close> of at most 144 characters and every
  character \<open>c\<close>, the number of occurrences of \<open>c\<close> in \<open>fix(s).fixed\<close> is at most 2.
  The sort of the engine is assumed to return a rearrangement of its array.
\<close>

theorem fix_repeat_limit:
  assumes "sort_permutes e" and "length (codePoints s) \<le> 144"
  shows "count_list (codePoints (fixed (fix_pw e s pos))) c \<le> 2"
proof -
  have "count_list (codePoints (fixed (fst (tryFix e s p)))) c \<le> 2" for p
    using tryFix_bounded [OF assms, of p] by simp
  then show ?thesis by (rule fix_pw_any)
qed

theorem fix_repeat_limit_witness:
  "sort_permutes env_ones \<and> length (codePoints (js ''AAAdef1#'')) \<le> 144 \<and>
   count_list (codePoints (fixed (fix_pw env_ones (js ''AAAdef1#'') 0))) (js ''A'') \<le> 2"
proof -
  have l: "length (codePoints (js ''AAAdef1#'')) \<le> 144"
    by code_simp
  show ?thesis
    using sort_permutes_env_ones l fix_repeat_limit [OF sort_permutes_env_ones l, of 0 "js ''A''"]
    by simp
qed

text \<open>
  Claim C6, as the code has it: for every integer \<open>n\<close>, every character of
  \<open>generate(n).password\<close> belongs to the union of the four class alphabets; for every
  string \<open>s\<close> of at most 144 characters so does every character of \<open>fix(s).fixed\<close>, and
  no character of it is of class Unknown.
\<close>

theorem outputs_in_alphabet:
  assumes "sort_permutes e" and "length (codePoints s) \<le> 144"
  shows "set (password (generate e n p)) \<subseteq>
     set (the (CHAR_CLASSES Uppercase)) \<union> set (the (CHAR_CLASSES Lowercase)) \<union>
     set (the (CHAR_CLASSES Digit)) \<union> set (the (CHAR_CLASSES Special)) \<and>
   set (fixed (fix_pw e s pos)) \<subseteq>
     set (the (CHAR_CLASSES Uppercase)) \<union> set (the (CHAR_CLASSES Lowercase)) \<union>
     set (the (CHAR_CLASSES Digit)) \<union> set (the (CHAR_CLASSES Special)) \<and>
   (\<forall>c\<in>set (codePoints (fixed (fix_pw e s pos))). classifyChar c \<noteq> Unknown)"
proof -
  have g: "set (password (generate e n p)) \<subseteq> set pool"
    using generateAttempt_result [where len = "max 8 (min 40 n)" and e = e and pos = p]
      clamp_range [of n]
    by (simp add: generate_def generate_run_result split_def)
  have "set (fixed (fst (tryFix e s q))) \<subseteq> set pool \<and>
      (\<forall>c\<in>set (codePoints (fixed (fst (tryFix e s q)))). classifyChar c \<noteq> Unknown)" for q
    using tryFix_bounded [OF assms, of q] poolChars_known by blast
  then have "set (fixed (fix_pw e s pos)) \<subseteq> set pool \<and>
      (\<forall>c\<in>set (codePoints (fixed (fix_pw e s pos))). classifyChar c \<noteq> Unknown)"
    by (rule fix_pw_any)
  then show ?thesis
    using g unfolding pool_classes by simp
qed

theorem outputs_in_alphabet_witness:
  "sort_permutes env_ones \<and> length (codePoints (js ''Ab1#~xyz'')) \<le> 144 \<and>
   set (password (generate env_ones 8 0)) \<subseteq>
     set (the (CHAR_CLASSES Uppercase)) \<union> set (the (CHAR_CLASSES Lowercase)) \<union>
     set (the (CHAR_CLASSES Digit)) \<union> set (the (CHAR_CLASSES Special)) \<and>
   set (fixed (fix_pw env_ones (js ''Ab1#~xyz'') 0)) \<subseteq>
     set (the (CHAR_CLASSES Uppercase)) \<union> set (the (CHAR_CLASSES Lowercase)) \<union>
     set (the (CHAR_CLASSES Digit)) \<union> set (the (CHAR_CLASSES Special))"
proof -
  have l: "length (codePoints (js ''Ab1#~xyz'')) \<le> 144"
    by code_simp
  show ?thesis
    using sort_permutes_env_ones l
      outputs_in_alphabet [OF sort_permutes_env_ones l, of 8 0 0]
    by simp
qed

text \<open>
  Claim C9, as the code has it: for a string \<open>s\<close> of at most 144 characters, phase 1 of
  a fix attempt changes exactly the positions that hold one of the (count - 2) rightmost
  occurrences of a character occurring more than twice in \<open>s\<close>. Each substitute is a
  character of the four class alphabets occurring at most twice at the end of the phase, and
  it is of the class of the character it replaces whenever a character of that class still
  occurs fewer than twice at the end of the phase. The Map of counts agrees with the
  array at the end of the phase. Every substitute picked is a character whose current count is
  below 2, and it is of the class of the replaced character whenever a character of that class
  has current count below 2.
\<close>

theorem phase1_rightmost:
  assumes "sort_permutes e" and "length (codePoints s) \<le> 144"
  shows "length (f_chars (phase1 e (tryFix_init s pos))) = length (codePoints s) \<and>
    (\<forall>i<length (codePoints s).
       (f_chars (phase1 e (tryFix_init s pos)) ! i \<noteq> codePoints s ! i) =
         rightmost_excess (codePoints s) i) \<and>
    (\<forall>i<length (codePoints s). rightmost_excess (codePoints s) i \<longrightarrow>
       f_chars (phase1 e (tryFix_init s pos)) ! i \<in> set poolChars \<and>
       count_list (f_chars (phase1 e (tryFix_init s pos)))
         (f_chars (phase1 e (tryFix_init s pos)) ! i) \<le> 2 \<and>
       ((\<exists>d\<in>set (codePoints (getPool (classifyChar (codePoints s ! i)))).
           count_list (f_chars (phase1 e (tryFix_init s pos))) d < 2) \<longrightarrow>
        classifyChar (f_chars (phase1 e (tryFix_init s pos)) ! i) =
          classifyChar (codePoints s ! i))) \<and>
    (\<forall>c. getOr 0 (f_counts (phase1 e (tryFix_init s pos))) (Some c) =
       count_list (f_chars (phase1 e (tryFix_init s pos))) c) \<and>
    (\<forall>ch m p r p'. pickReplacement e ch m p = (Some r, p') \<longrightarrow>
       r \<in> set poolChars \<and> avail m r \<and>
       ((\<exists>d\<in>set (codePoints (getPool (classifyKey ch))). avail m d) \<longrightarrow>
          classifyChar r = classifyKey ch))"
proof -
  define st1 where "st1 = phase1 e (tryFix_init s pos)"
  let ?cps = "codePoints s"
  note spec = phase1_spec [OF assms st1_def]
  have len: "length (f_chars st1) = length ?cps" using spec by simp
  have lk: "lockstep st1" and m1: "f_minus1 st1 = None" using spec by simp_all
  have pos: "(f_chars st1 ! i \<noteq> ?cps ! i) = rightmost_excess ?cps i" if "i < length ?cps" for i
    using spec that by simp
  have pl: "f_chars st1 ! i \<in> set poolChars" if "i < length ?cps" "f_chars st1 ! i \<noteq> ?cps ! i" for i
    using spec that by simp
  have two: "count_list (f_chars st1) d \<le> 2" for d
    using spec by simp
  have cls: "classifyChar (f_chars st1 ! i) = classifyChar (?cps ! i)"
    if "i < length ?cps" "f_chars st1 ! i \<noteq> ?cps ! i"
      "\<exists>d\<in>set (codePoints (getPool (classifyChar (?cps ! i)))). count_list (f_chars st1) d < 2" for i
    using spec that by blast
  have a: "\<forall>i<length ?cps. (f_chars st1 ! i \<noteq> ?cps ! i) = rightmost_excess ?cps i"
    using pos by simp
  have b: "\<forall>i<length ?cps. rightmost_excess ?cps i \<longrightarrow>
       f_chars st1 ! i \<in> set poolChars \<and>
       count_list (f_chars st1) (f_chars st1 ! i) \<le> 2 \<and>
       ((\<exists>d\<in>set (codePoints (getPool (classifyChar (?cps ! i)))).
           count_list (f_chars st1) d < 2) \<longrightarrow>
        classifyChar (f_chars st1 ! i) = classifyChar (?cps ! i))"
  proof (intro allI impI conjI)
    fix i
    assume i: "i < length ?cps" and r: "rightmost_excess ?cps i"
    then have ne: "f_chars st1 ! i \<noteq> ?cps ! i" using pos by simp
    show "f_chars st1 ! i \<in> set poolChars" using pl [OF i ne] .
    show "count_list (f_chars st1) (f_chars st1 ! i) \<le> 2" by (rule two)
    assume "\<exists>d\<in>set (codePoints (getPool (classifyChar (?cps ! i)))). count_list (f_chars st1) d < 2"
    then show "classifyChar (f_chars st1 ! i) = classifyChar (?cps ! i)"
      using cls [OF i ne] by simp
  qed
  have hd: "held st1 = f_chars st1" using m1 by (rule held_None)
  have c: "\<forall>c. getOr 0 (f_counts st1) (Some c) = count_list (f_chars st1) c"
    using lk hd by (simp add: lockstep_def)
  have d: "\<forall>ch m p r p'. pickReplacement e ch m p = (Some r, p') \<longrightarrow>
       r \<in> set poolChars \<and> avail m r \<and>
       ((\<exists>d\<in>set (codePoints (getPool (classifyKey ch))). avail m d) \<longrightarrow>
          classifyChar r = classifyKey ch)"
  proof (intro allI impI conjI)
    fix ch m p r p'
    assume pick: "pickReplacement e ch m p = (Some r, p')"
    show "r \<in> set poolChars" "avail m r"
      using pickReplacement_sound [OF pick] by auto
    assume "\<exists>d\<in>set (codePoints (getPool (classifyKey ch))). avail m d"
    then obtain d where d: "d \<in> set (codePoints (getPool (classifyKey ch)))" "avail m d"
      by blast
    obtain r' where r': "r' \<in> set (codePoints (getPool (classifyKey ch)))"
        "pickReplacement e ch m p = (Some r', Suc p)"
      using pickReplacement_same_class [OF d, of e p] by blast
    have "r' = r" using r'(2) pick by simp
    then show "classifyChar r = classifyKey ch"
      using getPool_classify [OF r'(1)] by simp
  qed
  show ?thesis
    using len a b c d unfolding st1_def by blast
qed

theorem phase1_rightmost_witness:
  "sort_permutes env_ones \<and> length (codePoints (js ''AAAdef1#'')) \<le> 144 \<and>
   rightmost_excess (codePoints (js ''AAAdef1#'')) 2 \<and>
   f_chars (phase1 env_ones (tryFix_init (js ''AAAdef1#'') 0)) ! 2 \<noteq>
     codePoints (js ''AAAdef1#'') ! 2 \<and>
   f_chars (phase1 env_ones (tryFix_init (js ''AAAdef1#'') 0)) ! 2 \<in> set poolChars"
proof -
  have l: "length (codePoints (js ''AAAdef1#'')) \<le> 144"
    by code_simp
  have n: "length (codePoints (js ''AAAdef1#'')) = 8"
    by code_simp
  have r: "rightmost_excess (codePoints (js ''AAAdef1#'')) 2"
    by code_simp
  show ?thesis
    using sort_permutes_env_ones l r n
      phase1_rightmost [OF sort_permutes_env_ones l, of 0]
    by simp
qed

section \<open>A password that exhausts the pool\<close>

lemma eq_but_pos_refl: "eq_but_pos st st"
  by (simp add: eq_but_pos_def)

lemma eq_but_pos_pos: "eq_but_pos st (st\<lparr>f_pos := p\<rparr>)"
  by (simp add: eq_but_pos_def)

lemma eq_but_pos_trans: "eq_but_pos a b \<Longrightarrow> eq_but_pos b c \<Longrightarrow> eq_but_pos a c"
  by (simp add: eq_but_pos_def)

lemma replaceLoop_exhausted:
  "exhausted (f_counts st) \<Longrightarrow> eq_but_pos st (replaceLoop e ch excess indices replaced st)"
proof (induction indices arbitrary: st)
  case Nil
  then show ?case by (simp add: eq_but_pos_refl)
next
  case (Cons idx indices)
  show ?case
  proof (cases "replaced \<ge> excess")
    case True
    then show ?thesis by (simp add: eq_but_pos_refl)
  next
    case False
    obtain p where pick: "pickReplacement e ch (f_counts st) (f_pos st) = (None, p)"
      using pickReplacement_none [of "f_counts st" e ch "f_pos st"] Cons.prems
      by (cases "pickReplacement e ch (f_counts st) (f_pos st)") (simp add: exhausted_def)
    have "replaceLoop e ch excess (idx # indices) replaced st =
        replaceLoop e ch excess indices replaced (st\<lparr>f_pos := p\<rparr>)"
      using False pick by simp
    moreover have "eq_but_pos (st\<lparr>f_pos := p\<rparr>)
        (replaceLoop e ch excess indices replaced (st\<lparr>f_pos := p\<rparr>))"
      using Cons.IH [of "st\<lparr>f_pos := p\<rparr>"] Cons.prems by simp
    ultimately show ?thesis
      using eq_but_pos_trans [OF eq_but_pos_pos] by simp
  qed
qed

lemma violators_exhausted:
  "exhausted (f_counts st) \<Longrightarrow> eq_but_pos st (fold (fixViolator e) vs st)"
proof (induction vs arbitrary: st)
  case Nil
  then show ?case by (simp add: eq_but_pos_refl)
next
  case (Cons v vs)
  have a: "eq_but_pos st (fixViolator e v st)"
    using Cons.prems by (cases v) (simp add: fixViolator_def replaceLoop_exhausted)
  then have "exhausted (f_counts (fixViolator e v st))"
    using Cons.prems by (simp add: eq_but_pos_def)
  then have "eq_but_pos (fixViolator e v st) (fold (fixViolator e) vs (fixViolator e v st))"
    by (rule Cons.IH)
  then show ?case using a eq_but_pos_trans by simp
qed

lemma cleanStep_exhausted: "exhausted (f_counts st) \<Longrightarrow> eq_but_pos st (cleanStep e i st)"
proof (cases "classifyChar (f_chars st ! i) = Unknown")
  case False
  then show ?thesis by (simp add: cleanStep_def eq_but_pos_refl)
next
  case True
  assume "exhausted (f_counts st)"
  then obtain p where "pickAnyAvailable e (f_counts st) (f_pos st) = (None, p)"
    using pickAnyAvailable_none [of "f_counts st" e "f_pos st"]
    by (cases "pickAnyAvailable e (f_counts st) (f_pos st)") (simp add: exhausted_def)
  then show ?thesis
    using True by (simp add: cleanStep_def eq_but_pos_pos)
qed

lemma phase4_exhausted:
  "exhausted (f_counts st) \<Longrightarrow> eq_but_pos st (fold (cleanStep e) is st)"
proof (induction "is" arbitrary: st)
  case Nil
  then show ?case by (simp add: eq_but_pos_refl)
next
  case (Cons i "is")
  have a: "eq_but_pos st (cleanStep e i st)"
    using Cons.prems by (rule cleanStep_exhausted)
  then have "exhausted (f_counts (cleanStep e i st))"
    using Cons.prems by (simp add: eq_but_pos_def)
  then have "eq_but_pos (cleanStep e i st) (fold (cleanStep e) is (cleanStep e i st))"
    by (rule Cons.IH)
  then show ?case using a eq_but_pos_trans by simp
qed

lemma phase2_all_present:
  assumes "classTest Uppercase (f_chars st)" and "classTest Lowercase (f_chars st)"
    and "classTest Digit (f_chars st)" and "classTest Special (f_chars st)"
  shows "phase2 e st = st"
  using assms by (simp add: phase2_def classCheck_def)

lemma tryFix_state_exhausted:
  assumes full: "\<forall>c\<in>set poolChars. 2 \<le> count_list (codePoints s) c"
  shows "eq_but_pos (tryFix_init s pos) (phase1 e (tryFix_init s pos)) \<and>
     eq_but_pos (tryFix_init s pos) (tryFix_state e s pos)"
proof -
  let ?st0 = "tryFix_init s pos"
  let ?st1 = "phase1 e ?st0"
  have ex0: "exhausted (f_counts ?st0)"
    using full by (simp add: exhausted_def avail_def init_fields countChars_getOr not_less)
  have e1: "eq_but_pos ?st0 ?st1"
    using ex0 by (simp add: phase1_def violators_exhausted)
  then have c1: "f_chars ?st1 = codePoints s" "f_counts ?st1 = countChars s"
    by (simp_all add: eq_but_pos_def init_fields)
  have present: "c \<in> set (codePoints s)" if "c \<in> set poolChars" for c
  proof -
    have "0 < count_list (codePoints s) c" using full that by fastforce
    then show ?thesis by (simp add: count_list_0_iff zero_less_iff_neq_zero)
  qed
  have test: "classTest cls (f_chars ?st1)" if "[u] \<in> set poolChars" "classifyChar [u] = cls"
    "cls \<noteq> Unknown" for u cls
    using classTest_of_class [OF _ that(2,3)] present [OF that(1)] c1(1) by simp
  have reps: "[0x41] \<in> set poolChars" "[0x61] \<in> set poolChars" "[0x30] \<in> set poolChars"
    "[0x23] \<in> set poolChars"
    by (simp_all add: poolChars_map pool_units)
  have cls: "classifyChar [0x41] = Uppercase" "classifyChar [0x61] = Lowercase"
    "classifyChar [0x30] = Digit" "classifyChar [0x23] = Special"
    by (simp_all add: classifyChar_single special_units)
  have p2: "phase2 e ?st1 = ?st1"
    using test [OF reps(1) cls(1)] test [OF reps(2) cls(2)] test [OF reps(3) cls(3)]
      test [OF reps(4) cls(4)]
    by (intro phase2_all_present) simp_all
  have "144 \<le> length (codePoints s)" using full by (rule pool_exhausted_length)
  then have p3: "phase3 e ?st1 = ?st1"
    by (subst phase3.simps) (simp add: c1)
  have "exhausted (f_counts ?st1)" using ex0 c1(2) by (simp add: init_fields)
  then have "eq_but_pos ?st1 (phase4 e ?st1)"
    by (simp add: phase4_def phase4_exhausted)
  then have "eq_but_pos ?st0 (tryFix_state e s pos)"
    using e1 eq_but_pos_trans by (simp add: tryFix_state_def p2 p3)
  then show ?thesis using e1 by simp
qed

lemma fix_exhausted:
  assumes "\<forall>c\<in>set poolChars. 2 \<le> count_list (codePoints s) c"
  shows "fixed (fix_pw e s pos) = s \<and> changes (fix_pw e s pos) = []"
proof -
  have "fixed (fst (tryFix e s p)) = s \<and> changes (fst (tryFix e s p)) = []" for p
    using tryFix_state_exhausted [OF assms, of p e]
    by (simp add: tryFix_def Let_def eq_but_pos_def init_fields concat_codePoints)
  then show ?thesis by (rule fix_pw_any)
qed

lemma twice_pool_full:
  assumes "codePoints s = poolChars @ poolChars @ rest"
  shows "\<forall>c\<in>set poolChars. 2 \<le> count_list (codePoints s) c"
proof
  fix c
  assume "c \<in> set poolChars"
  then have "0 < count_list poolChars c"
    by (simp add: count_list_0_iff zero_less_iff_neq_zero)
  then show "2 \<le> count_list (codePoints s) c"
    using assms by simp
qed

lemma codePoints_twice_pool:
  assumes "\<forall>u\<in>set t. u \<le> 0x7F"
  shows "codePoints (pool @ pool @ t) = poolChars @ poolChars @ map (\<lambda>u. [u]) t"
proof -
  have "\<forall>u\<in>set (pool @ pool @ t). u \<le> 0x7F"
    using assms pool_ascii by auto
  then show ?thesis
    by (simp add: ascii_codePoints poolChars_map)
qed


text \<open>
  The claim as stated covers every string. The password made of the whole pool twice and
  one more \<open>A\<close> has 145 characters and leaves no character available: no substitute is
  found and the three occurrences of \<open>A\<close> stay.
\<close>

theorem fix_repeat_limit_counterexample:
  "length (codePoints (pool @ pool @ js ''A'')) = 145 \<and>
   count_list (codePoints (fixed (fix_pw env_ones (pool @ pool @ js ''A'') 0))) (js ''A'') = 3"
proof -
  have a: "\<forall>u\<in>set (js ''A''). u \<le> 0x7F" by (simp add: js_def)
  have cp: "codePoints (pool @ pool @ js ''A'') = poolChars @ poolChars @ map (\<lambda>u. [u]) (js ''A'')"
    using a by (rule codePoints_twice_pool)
  have fx: "fixed (fix_pw env_ones (pool @ pool @ js ''A'') 0) = pool @ pool @ js ''A''"
    using fix_exhausted [OF twice_pool_full [OF cp]] by simp
  have one: "count_list poolChars [0x41] = 1"
    by (simp add: poolChars_map pool_units)
  show ?thesis
    by (simp add: fx cp one poolChars_length) (simp add: js_def one)
qed

text \<open>
  The claim as stated covers every string. The password made of the whole pool twice and
  one \<open>~\<close> leaves no character available: the unknown character \<open>~\<close> stays in the
  fixed string.
\<close>

theorem fix_alphabet_counterexample:
  "length (codePoints (pool @ pool @ js ''~'')) = 145 \<and>
   \<not> set (fixed (fix_pw env_ones (pool @ pool @ js ''~'') 0)) \<subseteq>
     set (the (CHAR_CLASSES Uppercase)) \<union> set (the (CHAR_CLASSES Lowercase)) \<union>
     set (the (CHAR_CLASSES Digit)) \<union> set (the (CHAR_CLASSES Special))"
proof -
  have a: "\<forall>u\<in>set (js ''~''). u \<le> 0x7F" by (simp add: js_def)
  have cp: "codePoints (pool @ pool @ js ''~'') = poolChars @ poolChars @ map (\<lambda>u. [u]) (js ''~'')"
    using a by (rule codePoints_twice_pool)
  have fx: "fixed (fix_pw env_ones (pool @ pool @ js ''~'') 0) = pool @ pool @ js ''~''"
    using fix_exhausted [OF twice_pool_full [OF cp]] by simp
  have "0x7E \<in> set (pool @ pool @ js ''~'')" by (simp add: js_def)
  moreover have "0x7E \<notin> set pool" by (simp add: pool_units)
  ultimately have "\<not> set (pool @ pool @ js ''~'') \<subseteq> set pool" by blast
  moreover have "length (codePoints (pool @ pool @ js ''~'')) = 145"
    by (simp add: cp poolChars_length) (simp add: js_def)
  ultimately show ?thesis
    unfolding fx pool_classes [symmetric] by simp
qed

text \<open>
  The claim as stated covers every string. In the password made of the whole pool twice and
  \<open>~~~\<close> the character \<open>~\<close> occurs three times, no substitute is available, and phase 1
  replaces none of its occurrences.
\<close>

theorem phase1_rightmost_counterexample:
  "count_list (codePoints (pool @ pool @ js ''~~~'')) (js ''~'') = 3 \<and>
   f_chars (phase1 env_ones (tryFix_init (pool @ pool @ js ''~~~'') 0)) =
     codePoints (pool @ pool @ js ''~~~'')"
proof -
  have a: "\<forall>u\<in>set (js ''~~~''). u \<le> 0x7F" by (simp add: js_def)
  have cp: "codePoints (pool @ pool @ js ''~~~'') =
      poolChars @ poolChars @ map (\<lambda>u. [u]) (js ''~~~'')"
    using a by (rule codePoints_twice_pool)
  have "eq_but_pos (tryFix_init (pool @ pool @ js ''~~~'') 0)
      (phase1 env_ones (tryFix_init (pool @ pool @ js ''~~~'') 0))"
    using tryFix_state_exhausted [OF twice_pool_full [OF cp]] by simp
  then have same: "f_chars (phase1 env_ones (tryFix_init (pool @ pool @ js ''~~~'') 0)) =
      codePoints (pool @ pool @ js ''~~~'')"
    by (simp add: eq_but_pos_def init_fields)
  have none: "count_list poolChars [0x7E] = 0"
    by (simp add: poolChars_map pool_units)
  have "count_list (codePoints (pool @ pool @ js ''~~~'')) (js ''~'') = 3"
    by (simp add: cp) (simp add: js_def none)
  then show ?thesis using same by simp
qed

end
